theory Spec2Isabelle
  imports Complex_Main
begin

section \<open>Python strings\<close>

text \<open>
  A Python \<open>str\<close> is modelled as a \<open>string\<close> whose characters are the code points
  0..255. Within that range \<open>str.isspace\<close> (and therefore \<open>str.strip()\<close>,
  \<open>str.split()\<close> and the regular expression class \<open>\s\<close>) holds exactly for the
  characters listed in \<open>whitespace_chars\<close>.
\<close>

definition whitespace_chars :: "char list" where
  "whitespace_chars =
     [CHR 0x09, CHR 0x0A, CHR 0x0B, CHR 0x0C, CHR 0x0D,
      CHR 0x1C, CHR 0x1D, CHR 0x1E, CHR 0x1F, CHR 0x20, CHR 0x85, CHR 0xA0]"

definition is_space :: "char \<Rightarrow> bool" where
  "is_space c = (c \<in> set whitespace_chars)"

text \<open>\<open>s.strip()\<close>\<close>

definition strip :: "string \<Rightarrow> string" where
  "strip s = rev (dropWhile is_space (rev (dropWhile is_space s)))"

text \<open>\<open>s.find(sub)\<close>: the lowest index at which \<open>sub\<close> occurs in \<open>s\<close>, or \<open>-1\<close>.\<close>

fun find_from :: "string \<Rightarrow> string \<Rightarrow> nat \<Rightarrow> int" where
  "find_from sub [] k = (if sub = [] then int k else - 1)"
| "find_from sub (c # cs) k =
     (if take (length sub) (c # cs) = sub then int k else find_from sub cs (Suc k))"

definition py_find :: "string \<Rightarrow> string \<Rightarrow> int" where
  "py_find s sub = find_from sub s 0"

text \<open>\<open>s[a:b]\<close> with Python's treatment of negative and out-of-range bounds.\<close>

definition slice_bound :: "nat \<Rightarrow> int \<Rightarrow> nat" where
  "slice_bound n x = (if x < 0 then nat (max 0 (x + int n)) else min (nat x) n)"

definition py_slice :: "string \<Rightarrow> int \<Rightarrow> int \<Rightarrow> string" where
  "py_slice s a b =
     (let lo = slice_bound (length s) a; hi = slice_bound (length s) b
      in take (hi - lo) (drop lo s))"

section \<open>generate\_chunks.py: character offsets\<close>

record char_offsets =
  char_start :: int
  char_end :: int
  source_length :: nat
  confidence :: rat

text \<open>
  \<open>calculate_char_offsets(chunk_content, full_content)\<close>. Both arguments may be
  \<open>None\<close> (\<open>create_chunk\<close> defaults \<open>full_content\<close> to \<open>None\<close>); \<open>not x\<close> holds for
  \<open>None\<close> and for the empty string. The float literals 1.0, 0.8 and 0.0 are the
  rationals they denote; no arithmetic is done on them.
\<close>

definition falsy :: "string option \<Rightarrow> bool" where
  "falsy x = (case x of None \<Rightarrow> True | Some s \<Rightarrow> s = [])"

definition py_len_or_zero :: "string option \<Rightarrow> nat" where
  "py_len_or_zero x = (case x of None \<Rightarrow> 0 | Some s \<Rightarrow> length s)"

definition calculate_char_offsets :: "string option \<Rightarrow> string option \<Rightarrow> char_offsets" where
  "calculate_char_offsets chunk_content full_content =
     (case (full_content, chunk_content) of
        (Some full, Some chunk) \<Rightarrow>
          (if full = [] \<or> chunk = [] then
             \<lparr>char_start = - 1, char_end = - 1,
              source_length = (if full = [] then 0 else length full), confidence = 0\<rparr>
           else
             let chunk_stripped = strip chunk;
                 cstart = py_find full chunk_stripped
             in if cstart \<noteq> - 1 then
                  \<lparr>char_start = cstart, char_end = cstart + int (length chunk_stripped),
                   source_length = length full, confidence = 1\<rparr>
                else
                  let search_portion =
                        (if length chunk_stripped > 100 then take 100 chunk_stripped
                         else chunk_stripped);
                      partial_start = py_find full search_portion
                  in if partial_start \<noteq> - 1 then
                       let estimated_end = partial_start + int (length chunk_stripped)
                       in \<lparr>char_start = partial_start,
                           char_end = min estimated_end (int (length full)),
                           source_length = length full, confidence = 8 / 10\<rparr>
                     else
                       \<lparr>char_start = - 1, char_end = - 1,
                        source_length = length full, confidence = 0\<rparr>)
      | _ \<Rightarrow>
          \<lparr>char_start = - 1, char_end = - 1,
           source_length = (if falsy full_content then 0 else py_len_or_zero full_content),
           confidence = 0\<rparr>)"

section \<open>generate\_chunks.py: chunk assembly\<close>

text \<open>\<open>str(n)\<close> as used by the f-strings: the decimal digits of an integer.\<close>

definition digit_char :: "nat \<Rightarrow> char" where
  "digit_char d = ''0123456789'' ! d"

fun str_nat :: "nat \<Rightarrow> string" where
  "str_nat n = (if n < 10 then [digit_char n] else str_nat (n div 10) @ [digit_char (n mod 10)])"

declare str_nat.simps [simp del]

definition py_str :: "int \<Rightarrow> string" where
  "py_str i = (if i < 0 then CHR ''-'' # str_nat (nat (- i)) else str_nat (nat i))"

text \<open>\<open>s.split(sep)\<close> for a one-character separator, and \<open>s.startswith(p)\<close>.\<close>

fun split_on :: "char \<Rightarrow> string \<Rightarrow> string list" where
  "split_on sep [] = [[]]"
| "split_on sep (x # xs) =
     (if x = sep then [] # split_on sep xs
      else (case split_on sep xs of [] \<Rightarrow> [[x]] | y # ys \<Rightarrow> (x # y) # ys))"

definition startswith :: "string \<Rightarrow> string \<Rightarrow> bool" where
  "startswith s p = (take (length p) s = p)"

definition MAX_CHUNK_TOKENS :: nat where "MAX_CHUNK_TOKENS = 625"
definition OVERLAP_TOKENS :: nat where "OVERLAP_TOKENS = 100"
definition MIN_CHUNK_TOKENS :: nat where "MIN_CHUNK_TOKENS = 50"

text \<open>
  The fallback of \<open>count_tokens\<close> when tiktoken fails: \<open>len(text) // 4\<close>.
\<close>

definition count_tokens_fallback :: "string \<Rightarrow> nat" where
  "count_tokens_fallback s = length s div 4"

text \<open>
  The document metadata dictionary. A key that may be missing is an \<open>option\<close> field:
  \<open>metadata['k']\<close> raises \<open>KeyError\<close> on \<open>None\<close>. \<open>md_images\<close> holds, for each
  image, its \<open>alt\<close> entry if it has one (a missing \<open>images\<close> key is the empty list).
\<close>

datatype error = KeyError string

record metadata =
  md_title :: "string option"
  md_date :: "string option"
  md_slug :: "string option"
  md_tags :: "string list option"
  md_source_url :: "string option"
  md_post_path :: "string option"
  md_original_file_sha256 :: "string option"
  md_images :: "string option list"

record chunk_metadata =
  cm_title :: string
  cm_date :: string
  cm_slug :: string
  cm_tags :: "string list"
  cm_source_url :: string
  cm_post_path :: string
  cm_image_alt_texts :: "string list"

text \<open>The dictionary returned by \<open>get_chunk_header_context\<close>; an absent key is \<open>None\<close>.\<close>

record header_context =
  hc_header_path :: "string list option"
  hc_header_hierarchy :: "string option"

text \<open>
  Functions of the repository and of its libraries that are not part of the two source
  files, taken as parameters: \<open>clean_markdown_text\<close>, \<open>extract_markdown_links\<close> and
  \<open>get_chunk_header_context\<close> of the module \<open>markdown_utils\<close>; \<open>count_tokens\<close>
  (tiktoken, or the fallback above); LangChain's \<open>text_splitter.split_text\<close> as
  configured in \<open>chunk_content_with_langchain\<close>; and \<open>hashlib.sha256(..).hexdigest()\<close>.
\<close>

record collaborators =
  clean_markdown_text :: "string \<Rightarrow> string"
  extract_markdown_links :: "string \<Rightarrow> (string \<times> string) list"
  get_chunk_header_context :: "string \<Rightarrow> string \<Rightarrow> header_context"
  count_tokens :: "string \<Rightarrow> nat"
  split_text :: "string \<Rightarrow> string list"
  sha256_hexdigest :: "string \<Rightarrow> string"

record chunk =
  chunk_id :: string
  parent_id :: string
  prev_id :: "string option"
  next_id :: "string option"
  embed_text :: string
  display_markdown :: string
  chunk_number :: nat
  content_type :: string
  heading :: string
  header_path :: "string list"
  header_hierarchy :: string
  token_count :: nat
  links :: "(string \<times> string) list"
  char_offsets :: char_offsets
  source_content_sha256 :: "string option"
  original_file_sha256 :: string
  metadata :: chunk_metadata

text \<open>\<open>d.get(key, default)\<close> on an entry that may be absent.\<close>

definition get_or :: "'a \<Rightarrow> 'a option \<Rightarrow> 'a" where
  "get_or d x = (case x of None \<Rightarrow> d | Some v \<Rightarrow> v)"

text \<open>\<open>extract_heading_from_chunk\<close>: the first line that, stripped, starts with \<open>#\<close>.\<close>

fun first_heading :: "string list \<Rightarrow> string" where
  "first_heading [] = []"
| "first_heading (line # lines) =
     (let stripped = strip line
      in if startswith stripped ''#'' then stripped else first_heading lines)"

definition extract_heading_from_chunk :: "string \<Rightarrow> string" where
  "extract_heading_from_chunk chunk_text = first_heading (split_on CHR 0x0A chunk_text)"

text \<open>
  \<open>create_chunk\<close>. The statements run in the source's order, so the first missing
  metadata key met is the one reported: \<open>title\<close>, \<open>slug\<close>, \<open>date\<close>, \<open>tags\<close>,
  \<open>source_url\<close>, \<open>post_path\<close>.
\<close>

definition create_chunk ::
  "collaborators \<Rightarrow> string \<Rightarrow> string \<Rightarrow> metadata \<Rightarrow> nat \<Rightarrow> string \<Rightarrow> string option \<Rightarrow>
   string option \<Rightarrow> string option \<Rightarrow> string option \<Rightarrow> error + chunk" where
  "create_chunk E content hd_text md chunk_num ctype prev nxt full_content markdown_chunk_content =
     (let chunk_links = extract_markdown_links E content;
          hctx = (case full_content of
                    None \<Rightarrow> \<lparr>hc_header_path = None, hc_header_hierarchy = None\<rparr>
                  | Some full \<Rightarrow>
                      if full = [] then \<lparr>hc_header_path = None, hc_header_hierarchy = None\<rparr>
                      else get_chunk_header_context E full content);
          offset_content = (if falsy markdown_chunk_content then Some content
                            else markdown_chunk_content);
          offsets = (if falsy full_content
                     then \<lparr>char_start = - 1, char_end = - 1, source_length = 0, confidence = 0\<rparr>
                     else calculate_char_offsets offset_content full_content);
          sha = (case full_content of
                   None \<Rightarrow> None
                 | Some full \<Rightarrow> if full = [] then None else Some (sha256_hexdigest E full));
          cleaned_content = clean_markdown_text E content
      in case md_title md of
           None \<Rightarrow> Inl (KeyError ''title'')
         | Some title \<Rightarrow>
      let title_prefix = ''Title: '' @ title @ [CHR 0x0A];
          context_content =
            (if \<not> falsy (hc_header_hierarchy hctx) then
               title_prefix @ (''Section: '' @ get_or [] (hc_header_hierarchy hctx)
                 @ [CHR 0x0A]) @ [CHR 0x0A] @ cleaned_content
             else if hd_text \<noteq> [] \<and> \<not> startswith hd_text title then
               title_prefix @ hd_text @ [CHR 0x0A, CHR 0x0A] @ cleaned_content
             else title_prefix @ [CHR 0x0A] @ cleaned_content)
      in case md_slug md of
           None \<Rightarrow> Inl (KeyError ''slug'')
         | Some slug \<Rightarrow>
      let pid = ctype @ '':'' @ slug;
          cid = pid @ ''::ch'' @ py_str (int chunk_num)
      in case md_date md of
           None \<Rightarrow> Inl (KeyError ''date'')
         | Some date \<Rightarrow>
         (case md_tags md of
           None \<Rightarrow> Inl (KeyError ''tags'')
         | Some tags \<Rightarrow>
         (case md_source_url md of
           None \<Rightarrow> Inl (KeyError ''source_url'')
         | Some source_url \<Rightarrow>
         (case md_post_path md of
           None \<Rightarrow> Inl (KeyError ''post_path'')
         | Some post_path \<Rightarrow>
           Inr \<lparr>chunk_id = cid,
                parent_id = pid,
                prev_id = prev,
                next_id = nxt,
                embed_text = context_content,
                display_markdown = (if falsy markdown_chunk_content then content
                                    else get_or [] markdown_chunk_content),
                chunk_number = chunk_num,
                content_type = ctype,
                heading = hd_text,
                header_path = get_or [] (hc_header_path hctx),
                header_hierarchy = get_or [] (hc_header_hierarchy hctx),
                token_count = count_tokens E context_content,
                links = chunk_links,
                char_offsets = offsets,
                source_content_sha256 = sha,
                original_file_sha256 = get_or [] (md_original_file_sha256 md),
                metadata =
                  \<lparr>cm_title = title, cm_date = date, cm_slug = slug, cm_tags = tags,
                   cm_source_url = source_url, cm_post_path = post_path,
                   cm_image_alt_texts =
                     concat (map (\<lambda>img. case img of None \<Rightarrow> []
                                         | Some alt \<Rightarrow> if alt = [] then [] else [alt])
                                 (md_images md))\<rparr>\<rparr>))))"

text \<open>
  \<open>chunk_content_with_langchain\<close>, first pass: the loop over \<open>text_chunks\<close> that
  builds \<open>temp_chunks\<close>, skipping the chunks that are too small after cleaning.
\<close>

record temp_chunk =
  tc_content :: string
  tc_markdown_content :: string
  tc_heading :: string
  tc_chunk_num :: nat

fun first_pass :: "collaborators \<Rightarrow> string list \<Rightarrow> temp_chunk list \<Rightarrow> temp_chunk list" where
  "first_pass E [] temp_chunks = temp_chunks"
| "first_pass E (chunk_text # rest) temp_chunks =
     (let cleaned_text = clean_markdown_text E chunk_text
      in if count_tokens E cleaned_text < MIN_CHUNK_TOKENS then first_pass E rest temp_chunks
         else first_pass E rest
                (temp_chunks @
                   [\<lparr>tc_content = cleaned_text,
                     tc_markdown_content = chunk_text,
                     tc_heading = extract_heading_from_chunk chunk_text,
                     tc_chunk_num = length temp_chunks\<rparr>]))"

text \<open>
  Second pass: the loop over \<open>enumerate(temp_chunks)\<close>; \<open>n\<close> is \<open>len(temp_chunks)\<close>
  and \<open>i\<close> the running index. An exception of \<open>create_chunk\<close> ends the loop.
\<close>

fun second_pass ::
  "collaborators \<Rightarrow> metadata \<Rightarrow> string \<Rightarrow> string \<Rightarrow> nat \<Rightarrow> temp_chunk list \<Rightarrow> nat \<Rightarrow>
   error + chunk list" where
  "second_pass E md content pid n [] i = Inr []"
| "second_pass E md content pid n (t # ts) i =
     (let prev = (if i > 0 then Some (pid @ ''::ch'' @ py_str (int i - 1)) else None);
          nxt = (if int i < int n - 1 then Some (pid @ ''::ch'' @ py_str (int i + 1)) else None)
      in case create_chunk E (tc_content t) (tc_heading t) md (tc_chunk_num t) ''post''
                prev nxt (Some content) (Some (tc_markdown_content t)) of
           Inl e \<Rightarrow> Inl e
         | Inr c \<Rightarrow>
             (case second_pass E md content pid n ts (Suc i) of
                Inl e \<Rightarrow> Inl e
              | Inr cs \<Rightarrow> Inr (c # cs)))"

text \<open>
  The body of \<open>chunk_content_with_langchain\<close> after the splitter has run, and the
  function itself.
\<close>

definition chunks_of_text_chunks ::
  "collaborators \<Rightarrow> string list \<Rightarrow> string \<Rightarrow> metadata \<Rightarrow> error + chunk list" where
  "chunks_of_text_chunks E text_chunks content md =
     (let temp_chunks = first_pass E text_chunks []
      in case md_slug md of
           None \<Rightarrow> Inl (KeyError ''slug'')
         | Some slug \<Rightarrow>
             second_pass E md content (''post:'' @ slug) (length temp_chunks) temp_chunks 0)"

definition chunk_content_with_langchain ::
  "collaborators \<Rightarrow> string \<Rightarrow> metadata \<Rightarrow> error + chunk list" where
  "chunk_content_with_langchain E content md =
     chunks_of_text_chunks E (split_text E content) content md"

section \<open>chunker.py: token counting and the hard cut\<close>

text \<open>
  The token counter built by \<open>_build_token_counter\<close> is a parameter \<open>tok\<close> of the
  functions below (tiktoken when it is available). Its fallback is the heuristic
  \<open>max(1, len(s) // 4)\<close>.
\<close>

definition heuristic_count :: "string \<Rightarrow> nat" where
  "heuristic_count s = max 1 (length s div 4)"

text \<open>
  \<open>s.split()\<close>: the maximal runs of non-whitespace characters. \<open>cur\<close> is the word
  being read.
\<close>

fun split_ws :: "string \<Rightarrow> string \<Rightarrow> string list" where
  "split_ws cur [] = (if cur = [] then [] else [cur])"
| "split_ws cur (c # cs) =
     (if is_space c then (if cur = [] then split_ws [] cs else cur # split_ws [] cs)
      else split_ws (cur @ [c]) cs)"

definition py_split :: "string \<Rightarrow> string list" where
  "py_split s = split_ws [] s"

text \<open>\<open>sep.join(xs)\<close>\<close>

fun py_join :: "string \<Rightarrow> string list \<Rightarrow> string" where
  "py_join sep [] = []"
| "py_join sep [x] = x"
| "py_join sep (x # y # ys) = x @ sep @ py_join sep (y # ys)"

text \<open>
  \<open>_hard_cut\<close>: the loop over the words, with the state \<open>chunks, cur, cur_tokens\<close>,
  followed by the final append of a non-empty \<open>cur\<close>.
\<close>

fun hard_cut_loop ::
  "(string \<Rightarrow> nat) \<Rightarrow> int \<Rightarrow> string list \<Rightarrow> string list \<Rightarrow> string list \<Rightarrow> nat \<Rightarrow>
   string list \<times> string list \<times> nat" where
  "hard_cut_loop tok max_toks [] chunks cur cur_tokens = (chunks, cur, cur_tokens)"
| "hard_cut_loop tok max_toks (w # ws) chunks cur cur_tokens =
     (let wtok = tok (w @ '' '')
      in if int (cur_tokens + wtok) > max_toks \<and> cur \<noteq> [] then
           hard_cut_loop tok max_toks ws (chunks @ [strip (py_join '' '' cur)]) [w] wtok
         else hard_cut_loop tok max_toks ws chunks (cur @ [w]) (cur_tokens + wtok))"

definition hard_cut :: "(string \<Rightarrow> nat) \<Rightarrow> int \<Rightarrow> string \<Rightarrow> string list" where
  "hard_cut tok max_toks s =
     (case hard_cut_loop tok max_toks (py_split s) [] [] 0 of
        (chunks, cur, cur_tokens) \<Rightarrow>
          if cur \<noteq> [] then chunks @ [strip (py_join '' '' cur)] else chunks)"

section \<open>chunker.py: recursive decomposition\<close>

text \<open>
  \<open>_split_with_rules(s, rules)\<close>; the rules are functions from a text to its pieces,
  as in the source.
\<close>

definition too_big :: "(string \<Rightarrow> nat) \<Rightarrow> int \<Rightarrow> string \<Rightarrow> bool" where
  "too_big tok max_tokens s = (int (tok s) > max_tokens)"

fun split_with_rules ::
  "(string \<Rightarrow> nat) \<Rightarrow> int \<Rightarrow> string \<Rightarrow> (string \<Rightarrow> string list) list \<Rightarrow> string list" where
  "split_with_rules tok max_tokens s [] = hard_cut tok max_tokens s"
| "split_with_rules tok max_tokens s (rule # rules) =
     (let parts = rule s
      in if length parts = 1 then
           (if too_big tok max_tokens s then split_with_rules tok max_tokens s rules else [s])
         else
           concat (map (\<lambda>p. if too_big tok max_tokens p
                             then split_with_rules tok max_tokens p rules else [p]) parts))"

section \<open>chunker.py: the greedy packer\<close>

text \<open>The dictionaries appended by \<open>flush\<close>; \<open>meta\<close> is absent until step 4 sets it.\<close>

record packed =
  pk_id :: nat
  pk_text :: string
  n_tokens :: nat
  meta_structure :: "string option"

text \<open>The variables of the packing loop.\<close>

record pack_state =
  parts :: "string list"
  idx :: nat
  buf :: "string list"
  buf_tokens :: nat
  chunks :: "packed list"

definition flush :: "(string \<Rightarrow> nat) \<Rightarrow> pack_state \<Rightarrow> pack_state" where
  "flush tok st =
     (if buf st = [] then st
      else
        let body = strip (py_join [CHR 0x0A, CHR 0x0A] (buf st));
            n = tok body
        in st\<lparr>chunks := chunks st @
                  [\<lparr>pk_id = length (chunks st), pk_text = body, n_tokens = n,
                    meta_structure = None\<rparr>],
              buf := [], buf_tokens := 0\<rparr>)"

text \<open>\<open>xs.insert(k, x)\<close> for \<open>0 \<le> k\<close>.\<close>

definition list_insert :: "'a list \<Rightarrow> nat \<Rightarrow> 'a \<Rightarrow> 'a list" where
  "list_insert xs k x = take k xs @ x # drop k xs"

text \<open>
  One iteration of \<open>while i < len(parts)\<close>; it is run only when \<open>idx st < length (parts st)\<close>.
\<close>

definition pack_step :: "(string \<Rightarrow> nat) \<Rightarrow> int \<Rightarrow> int \<Rightarrow> pack_state \<Rightarrow> pack_state" where
  "pack_step tok max_tokens min_tokens st =
     (let piece = parts st ! idx st;
          ptok = tok piece
      in if int ptok > max_tokens then
           st\<lparr>parts := fold (\<lambda>sub ps. list_insert ps (idx st + 1) sub)
                          (hard_cut tok max_tokens piece) (parts st),
              idx := idx st + 1\<rparr>
         else if int (buf_tokens st + ptok) \<le> max_tokens then
           st\<lparr>buf := buf st @ [piece], buf_tokens := buf_tokens st + ptok, idx := idx st + 1\<rparr>
         else if int (buf_tokens st) < min_tokens then
           (if idx st < length (parts st) \<and> int (buf_tokens st + ptok) \<le> max_tokens then
              st\<lparr>buf := buf st @ [piece], buf_tokens := buf_tokens st + ptok, idx := idx st + 1\<rparr>
            else flush tok st)
         else flush tok st)"

text \<open>
  The loop. It need not terminate, so it is a partial function: \<open>None\<close> stands for a
  loop that runs forever.
\<close>

partial_function (option) pack_loop ::
  "(string \<Rightarrow> nat) \<Rightarrow> int \<Rightarrow> int \<Rightarrow> pack_state \<Rightarrow> pack_state option" where
  "pack_loop tok max_tokens min_tokens st =
     (if idx st < length (parts st)
      then pack_loop tok max_tokens min_tokens (pack_step tok max_tokens min_tokens st)
      else Some st)"

declare pack_loop.simps [code]

text \<open>Step 2 of \<open>adaptive_chunk\<close>: the loop from the initial state, and the final \<open>flush()\<close>.\<close>

definition pack :: "(string \<Rightarrow> nat) \<Rightarrow> int \<Rightarrow> int \<Rightarrow> string list \<Rightarrow> packed list option" where
  "pack tok max_tokens min_tokens ps =
     (case pack_loop tok max_tokens min_tokens
             \<lparr>parts = ps, idx = 0, buf = [], buf_tokens = 0, chunks = []\<rparr> of
        None \<Rightarrow> None
      | Some st \<Rightarrow> Some (chunks (flush tok st)))"

section \<open>chunker.py: sentences\<close>

text \<open>
  \<open>_SENT_RE.split(s)\<close> for the pattern \<open>(?<=\S[.!?])\s+(?=[A-Z0-9"'(])\<close> (the
  pattern's curly opening quote lies outside the modelled code points). A match is a
  maximal run of whitespace that follows a non-space character and one of \<open>.!?\<close> and
  is followed by a character of the class; \<open>cur\<close> is the piece read so far, which
  starts at the start of the string or just after the previous match.
\<close>

definition sent_lookbehind :: "string \<Rightarrow> bool" where
  "sent_lookbehind cur =
     (length cur \<ge> 2 \<and> last cur \<in> set ''.!?'' \<and> \<not> is_space (cur ! (length cur - 2)))"

definition sent_lookahead :: "string \<Rightarrow> bool" where
  "sent_lookahead rest =
     (case rest of [] \<Rightarrow> False
      | c # _ \<Rightarrow> c \<in> set ''ABCDEFGHIJKLMNOPQRSTUVWXYZ0123456789'' \<or> c = CHR 0x22 \<or>
                 c = CHR 0x27 \<or> c = CHR ''('')"

function sent_re_split :: "string \<Rightarrow> string \<Rightarrow> string list" where
  "sent_re_split cur [] = [cur]"
| "sent_re_split cur (c # cs) =
     (if is_space c \<and> sent_lookbehind cur \<and> sent_lookahead (dropWhile is_space cs)
      then cur # sent_re_split [] (dropWhile is_space cs)
      else sent_re_split (cur @ [c]) cs)"
  by pat_completeness auto
termination
  by (relation "measure (\<lambda>(cur, s). length s)")
    (auto simp: length_dropWhile_le less_Suc_eq_le)

declare sent_re_split.simps [simp del]

text \<open>
  The first match of \<open>```[\s\S]*?```\<close>: the first fence and the nearest fence
  that starts at least three characters later, as start and end offsets.
\<close>

definition fence_match :: "string \<Rightarrow> (nat \<times> nat) option" where
  "fence_match s =
     (let a = py_find s ''```''
      in if a = - 1 then None
         else let b = py_find (drop (nat a + 3) s) ''```''
              in if b = - 1 then None else Some (nat a, nat a + 3 + nat b + 3))"

text \<open>
  \<open>split_sentences\<close>: the loop over the fenced code blocks collects \<open>blocks\<close>; the
  text is the part not yet scanned (\<open>text[i:]\<close>).
\<close>

function sentence_blocks :: "string \<Rightarrow> string list" where
  "sentence_blocks s =
     (case fence_match s of
        None \<Rightarrow> (if s \<noteq> [] then sent_re_split [] (strip s) else [])
      | Some (a, e) \<Rightarrow>
          (if take a s \<noteq> [] then sent_re_split [] (strip (take a s)) else []) @
          [take (e - a) (drop a s)] @
          sentence_blocks (drop e s))"
  by pat_completeness auto
termination
proof (relation "measure length")
  show "wf (measure length)" by simp
next
  fix s :: string and x a e
  assume "fence_match s = Some x" and "(a, e) = x"
  then have m: "fence_match s = Some (a, e)" by simp
  then have "py_find s ''```'' \<noteq> - 1" and "e > 0"
    by (auto simp: fence_match_def Let_def split: if_splits)
  then have "s \<noteq> []" and "e > 0"
    by (auto simp: py_find_def)
  then show "(drop e s, s) \<in> measure length" by simp
qed

declare sentence_blocks.simps [simp del]

definition split_sentences :: "string \<Rightarrow> string list" where
  "split_sentences s = filter (\<lambda>b. b \<noteq> []) (map strip (sentence_blocks s))"

section \<open>chunker.py: sentence overlap\<close>

text \<open>\<open>xs[-k:]\<close> for \<open>k > 0\<close>.\<close>

definition last_n :: "nat \<Rightarrow> 'a list \<Rightarrow> 'a list" where
  "last_n k xs = drop (length xs - k) xs"

text \<open>
  Step 3 of \<open>adaptive_chunk\<close>. The loop body for index \<open>j\<close> reads
  \<open>chunks[j - 1]["text"]\<close> from the list as it stands and updates \<open>chunks[j]\<close> in place.
\<close>

definition overlap_step :: "(string \<Rightarrow> nat) \<Rightarrow> nat \<Rightarrow> nat \<Rightarrow> packed list \<Rightarrow> packed list" where
  "overlap_step tok k j cs =
     (let prev_tail = last_n k (split_sentences (pk_text (cs ! (j - 1))));
          new_text = strip (py_join '' '' prev_tail @ '' '' @ pk_text (cs ! j))
      in cs[j := (cs ! j)\<lparr>pk_text := new_text, n_tokens := tok new_text\<rparr>])"

definition add_overlap :: "(string \<Rightarrow> nat) \<Rightarrow> int \<Rightarrow> packed list \<Rightarrow> packed list" where
  "add_overlap tok overlap_sentences cs =
     (if overlap_sentences > 0 \<and> length cs > 1
      then fold (overlap_step tok (nat overlap_sentences)) [1..<length cs] cs
      else cs)"

section \<open>chunker.py: the splitters defined by a regular expression\<close>

text \<open>
  \<open>re.split\<close> as of Python 3.7, where an empty match splits the string. In each
  function \<open>cur\<close> is the piece read so far.

  \<open>re.split(r"\n{2,}", s)\<close>: a match is a maximal run of two or more newlines.
\<close>

function para_split :: "string \<Rightarrow> string \<Rightarrow> string list" where
  "para_split cur [] = [cur]"
| "para_split cur (c # cs) =
     (if c = CHR 0x0A \<and> cs \<noteq> [] \<and> hd cs = CHR 0x0A
      then cur # para_split [] (dropWhile (\<lambda>x. x = CHR 0x0A) cs)
      else para_split (cur @ [c]) cs)"
  by pat_completeness auto
termination
  by (relation "measure (\<lambda>(cur, s). length s)")
    (auto simp: length_dropWhile_le less_Suc_eq_le)

declare para_split.simps [simp del]

definition split_by_paragraph :: "string \<Rightarrow> string list" where
  "split_by_paragraph s = filter (\<lambda>p. strip p \<noteq> []) (para_split [] (strip s))"

text \<open>
  \<open>re.split(r"(?m)(?=^#{1,6}\s)", s)\<close>: an empty match at every start of a line
  (\<open>bol\<close>) that is followed by one to six \<open>#\<close> and a whitespace character.
\<close>

definition heading_at :: "string \<Rightarrow> bool" where
  "heading_at s =
     (let k = length (takeWhile (\<lambda>x. x = CHR ''#'') s)
      in 1 \<le> k \<and> k \<le> 6 \<and> k < length s \<and> is_space (s ! k))"

fun heading_split :: "bool \<Rightarrow> string \<Rightarrow> string \<Rightarrow> string list" where
  "heading_split bol cur [] = [cur]"
| "heading_split bol cur (c # cs) =
     (if bol \<and> heading_at (c # cs) then cur # heading_split (c = CHR 0x0A) [c] cs
      else heading_split (c = CHR 0x0A) (cur @ [c]) cs)"

definition split_by_markdown_headings :: "string \<Rightarrow> string list" where
  "split_by_markdown_headings s =
     filter (\<lambda>p. strip p \<noteq> []) (heading_split True [] (strip s))"

text \<open>
  \<open>re.split(r"(?m)(?=^\s*(def |class |function |export |const |let |var ))", s)\<close>:
  an empty match at every start of a line where, after the whitespace, one of the
  keywords follows. The pattern has a capturing group, so \<open>re.split\<close> also returns
  the keyword matched, as a piece of its own, at every split.
\<close>

definition code_keywords :: "string list" where
  "code_keywords =
     [''def '', ''class '', ''function '', ''export '', ''const '', ''let '', ''var '']"

definition code_keyword_at :: "string \<Rightarrow> string option" where
  "code_keyword_at s =
     (case filter (startswith (dropWhile is_space s)) code_keywords of
        [] \<Rightarrow> None
      | kw # _ \<Rightarrow> Some kw)"

fun code_split :: "bool \<Rightarrow> string \<Rightarrow> string \<Rightarrow> string list" where
  "code_split bol cur [] = [cur]"
| "code_split bol cur (c # cs) =
     (case (if bol then code_keyword_at (c # cs) else None) of
        Some kw \<Rightarrow> cur # kw # code_split (c = CHR 0x0A) [c] cs
      | None \<Rightarrow> code_split (c = CHR 0x0A) (cur @ [c]) cs)"

definition split_by_code_symbols :: "string \<Rightarrow> string list" where
  "split_by_code_symbols s =
     filter (\<lambda>p. strip p \<noteq> []) (code_split True [] (strip s))"

definition split_by_sentence :: "string \<Rightarrow> string list" where
  "split_by_sentence s = split_sentences s"

section \<open>chunker.py: adaptive\_chunk\<close>

text \<open>The splitters chosen by the corpus type.\<close>

definition splitters_for :: "string \<Rightarrow> (string \<Rightarrow> string list) list" where
  "splitters_for structure =
     (if structure = ''markdown'' then
        [split_by_markdown_headings, split_by_paragraph, split_by_sentence]
      else if structure = ''code'' then
        [split_by_code_symbols, split_by_paragraph, split_by_sentence]
      else [split_by_paragraph, split_by_sentence])"

text \<open>
  \<open>adaptive_chunk\<close>: the choice of the splitters, the pre-split, the packer, the
  overlap and the metadata. The result is \<open>None\<close> when the packing loop does not end.
\<close>

definition adaptive_chunk ::
  "(string \<Rightarrow> nat) \<Rightarrow> string \<Rightarrow> int \<Rightarrow> int \<Rightarrow> int \<Rightarrow> string \<Rightarrow> packed list option" where
  "adaptive_chunk tok text_in max_tokens min_tokens overlap_sentences structure =
     (let splitters = splitters_for structure;
          ps = split_with_rules tok max_tokens text_in splitters
      in case pack tok max_tokens min_tokens ps of
           None \<Rightarrow> None
         | Some cs \<Rightarrow>
             Some (map (\<lambda>c. c\<lparr>meta_structure := Some structure\<rparr>)
                     (add_overlap tok overlap_sentences cs)))"

section \<open>The specification's notion of content\<close>

text \<open>
  Content modulo whitespace normalisation: the text with every whitespace character
  removed.
\<close>

definition squash :: "string \<Rightarrow> string" where
  "squash s = filter (\<lambda>c. \<not> is_space c) s"

text \<open>A word: a non-empty string without whitespace.\<close>

definition wordlike :: "string \<Rightarrow> bool" where
  "wordlike w = (w \<noteq> [] \<and> (\<forall>c\<in>set w. \<not> is_space c))"

section \<open>Properties of the string primitives\<close>

lemma find_from_range:
  "find_from sub s k = - 1 \<or>
   (\<exists>j. find_from sub s k = int (k + j) \<and> j + length sub \<le> length s \<and>
        take (length sub) (drop j s) = sub)"
proof (induction s arbitrary: k)
  case Nil
  then show ?case by auto
next
  case (Cons c cs)
  show ?case
  proof (cases "take (length sub) (c # cs) = sub")
    case True
    then have "length (take (length sub) (c # cs)) = length sub"
      by simp
    then have "length sub \<le> length (c # cs)"
      by (simp del: take_Suc_Cons)
    with True show ?thesis
      by (intro disjI2 exI[of _ 0]) simp
  next
    case False
    from Cons.IH[of "Suc k"] show ?thesis
    proof
      assume "find_from sub cs (Suc k) = - 1"
      with False show ?thesis by simp
    next
      assume "\<exists>j. find_from sub cs (Suc k) = int (Suc k + j) \<and> j + length sub \<le> length cs \<and>
        take (length sub) (drop j cs) = sub"
      then obtain j where j: "find_from sub cs (Suc k) = int (Suc k + j)"
        "j + length sub \<le> length cs" "take (length sub) (drop j cs) = sub"
        by blast
      with False show ?thesis
        by (intro disjI2 exI[of _ "Suc j"]) simp
    qed
  qed
qed

lemma py_find_found:
  assumes "py_find s sub \<noteq> - 1"
  shows "\<exists>j. py_find s sub = int j \<and> j + length sub \<le> length s \<and>
             take (length sub) (drop j s) = sub"
  using find_from_range[of sub s 0] assms by (auto simp: py_find_def)

lemma py_slice_found:
  assumes "j + n \<le> length s"
  shows "py_slice s (int j) (int j + int n) = take n (drop j s)"
proof -
  have "slice_bound (length s) (int j) = j"
    using assms by (simp add: slice_bound_def)
  moreover have "slice_bound (length s) (int j + int n) = j + n"
    using assms by (simp add: slice_bound_def nat_add_distrib)
  ultimately show ?thesis
    by (simp add: py_slice_def Let_def)
qed

text \<open>Whenever a match is reported, the end offset is not below the start offset.\<close>

lemma offsets_ordered:
  assumes "0 < confidence (calculate_char_offsets chunk_content full_content)"
  shows "char_start (calculate_char_offsets chunk_content full_content)
           \<le> char_end (calculate_char_offsets chunk_content full_content)"
proof -
  obtain chunk full where cf: "chunk_content = Some chunk" "full_content = Some full"
    using assms by (cases chunk_content; cases full_content)
      (auto simp: calculate_char_offsets_def)
  have ne: "full \<noteq> []" "chunk \<noteq> []"
    using assms cf by (auto simp: calculate_char_offsets_def split: if_splits)
  show ?thesis
  proof (cases "py_find full (strip chunk) \<noteq> - 1")
    case True
    with cf ne show ?thesis
      by (simp add: calculate_char_offsets_def Let_def)
  next
    case False
    let ?portion = "if length (strip chunk) > 100 then take 100 (strip chunk) else strip chunk"
    have found: "py_find full ?portion \<noteq> - 1"
      using assms cf ne False
      by (auto simp: calculate_char_offsets_def Let_def split: if_splits)
    then obtain j where j: "py_find full ?portion = int j" "j + length ?portion \<le> length full"
      using py_find_found by blast
    then have "int j \<le> min (int j + int (length (strip chunk))) (int (length full))"
      by simp
    with cf ne False found j(1) show ?thesis
      by (simp add: calculate_char_offsets_def Let_def)
  qed
qed

section \<open>Claims about calculate\_char\_offsets\<close>

text \<open>
  C6 (offset correctness). Whenever \<open>calculate_char_offsets\<close> reports confidence 1.0,
  both arguments were present, slicing the source document from \<open>char_start\<close> to
  \<open>char_end\<close> yields exactly the stripped chunk text, and \<open>char_end\<close> is not below
  \<open>char_start\<close>.
\<close>

theorem offsets_exact_slice:
  assumes "confidence (calculate_char_offsets chunk_content full_content) = 1"
  shows "\<exists>chunk full. chunk_content = Some chunk \<and> full_content = Some full \<and>
           py_slice full (char_start (calculate_char_offsets chunk_content full_content))
                         (char_end (calculate_char_offsets chunk_content full_content))
             = strip chunk \<and>
           char_start (calculate_char_offsets chunk_content full_content)
             \<le> char_end (calculate_char_offsets chunk_content full_content)"
proof -
  obtain chunk full where cf: "chunk_content = Some chunk" "full_content = Some full"
    using assms by (cases chunk_content; cases full_content)
      (auto simp: calculate_char_offsets_def)
  have ne: "full \<noteq> []" "chunk \<noteq> []"
    using assms cf by (auto simp: calculate_char_offsets_def split: if_splits)
  have found: "py_find full (strip chunk) \<noteq> - 1"
    using assms cf ne by (auto simp: calculate_char_offsets_def Let_def split: if_splits)
  then obtain j where j: "py_find full (strip chunk) = int j"
    "j + length (strip chunk) \<le> length full"
    "take (length (strip chunk)) (drop j full) = strip chunk"
    using py_find_found by blast
  have r: "calculate_char_offsets chunk_content full_content =
        \<lparr>char_start = int j, char_end = int j + int (length (strip chunk)),
         source_length = length full, confidence = 1\<rparr>"
    using cf ne found j(1) by (simp add: calculate_char_offsets_def Let_def)
  show ?thesis
    using cf j(3) py_slice_found[OF j(2)] r by simp
qed

theorem offsets_exact_slice_witness:
  "confidence (calculate_char_offsets (Some '' world '') (Some ''hello world'')) = 1 \<and>
   char_start (calculate_char_offsets (Some '' world '') (Some ''hello world'')) = 6 \<and>
   char_end (calculate_char_offsets (Some '' world '') (Some ''hello world'')) = 11 \<and>
   py_slice ''hello world'' 6 11 = strip '' world ''"
proof -
  have c: "confidence (calculate_char_offsets (Some '' world '') (Some ''hello world'')) = 1"
    by (simp add: calculate_char_offsets_def Let_def strip_def is_space_def
        whitespace_chars_def py_find_def)
  have s: "char_start (calculate_char_offsets (Some '' world '') (Some ''hello world'')) = 6"
    by (simp add: calculate_char_offsets_def Let_def strip_def is_space_def
        whitespace_chars_def py_find_def)
  have e: "char_end (calculate_char_offsets (Some '' world '') (Some ''hello world'')) = 11"
    by (simp add: calculate_char_offsets_def Let_def strip_def is_space_def
        whitespace_chars_def py_find_def)
  from offsets_exact_slice[OF c] show ?thesis
    using c s e by simp
qed

text \<open>
  C10 (totality and sentinel). \<open>calculate_char_offsets\<close> is a total function of its two
  optional arguments (the source has no raising operation). If either argument is absent
  or empty the result is the sentinel \<open>-1, -1, 0.0\<close> with \<open>source_length\<close> the length
  of the document (0 when it is absent), and in every case the confidence is one of
  1.0, 0.8 and 0.0.
\<close>

theorem offsets_total_sentinel:
  "(falsy chunk_content \<or> falsy full_content \<longrightarrow>
      calculate_char_offsets chunk_content full_content =
        \<lparr>char_start = - 1, char_end = - 1,
         source_length = py_len_or_zero full_content, confidence = 0\<rparr>) \<and>
   (confidence (calculate_char_offsets chunk_content full_content) = 1 \<or>
    confidence (calculate_char_offsets chunk_content full_content) = 8 / 10 \<or>
    confidence (calculate_char_offsets chunk_content full_content) = 0)"
  by (cases chunk_content; cases full_content)
    (auto simp: calculate_char_offsets_def falsy_def py_len_or_zero_def Let_def)

theorem offsets_total_sentinel_witness:
  "falsy (Some []) \<and> falsy None \<and>
   calculate_char_offsets (Some []) (Some ''doc'') =
     \<lparr>char_start = - 1, char_end = - 1, source_length = 3, confidence = 0\<rparr> \<and>
   calculate_char_offsets (Some ''text'') None =
     \<lparr>char_start = - 1, char_end = - 1, source_length = 0, confidence = 0\<rparr>"
  using offsets_total_sentinel[of "Some []" "Some ''doc''"]
    offsets_total_sentinel[of "Some ''text''" None]
  by (simp add: falsy_def py_len_or_zero_def)

section \<open>Properties of chunk assembly\<close>

lemma create_chunk_fields:
  assumes "create_chunk E content h md k ctype prev nxt full mdc = Inr c"
  shows "\<exists>slug. md_slug md = Some slug \<and>
           chunk_id c = ctype @ '':'' @ slug @ ''::ch'' @ py_str (int k) \<and>
           parent_id c = ctype @ '':'' @ slug" 
    and "prev_id c = prev" and "next_id c = nxt"
    and "links c = extract_markdown_links E content"
    and "display_markdown c = (if falsy mdc then content else get_or [] mdc)"
    and "chunk_number c = k"
  using assms
  by (auto simp: create_chunk_def Let_def split: option.splits)

lemma create_chunk_complete:
  assumes "md_title md \<noteq> None" "md_slug md \<noteq> None" "md_date md \<noteq> None" "md_tags md \<noteq> None"
    "md_source_url md \<noteq> None" "md_post_path md \<noteq> None"
  shows "\<exists>c. create_chunk E content h md k ctype prev nxt full mdc = Inr c"
  using assms
  by (auto simp: create_chunk_def Let_def split: option.splits)

lemma first_pass_markdown:
  "map tc_markdown_content (first_pass E ts acc) =
     map tc_markdown_content acc @
     filter (\<lambda>t. \<not> count_tokens E (clean_markdown_text E t) < MIN_CHUNK_TOKENS) ts"
  by (induction ts arbitrary: acc) (auto simp: Let_def)

lemma first_pass_content:
  "map tc_content (first_pass E ts acc) =
     map tc_content acc @
     map (clean_markdown_text E)
       (filter (\<lambda>t. \<not> count_tokens E (clean_markdown_text E t) < MIN_CHUNK_TOKENS) ts)"
  by (induction ts arbitrary: acc) (auto simp: Let_def)

lemma first_pass_chunk_num:
  "\<forall>j<length acc. tc_chunk_num (acc ! j) = j \<Longrightarrow>
   j < length (first_pass E ts acc) \<Longrightarrow> tc_chunk_num (first_pass E ts acc ! j) = j"
proof (induction ts arbitrary: acc)
  case Nil
  then show ?case by simp
next
  case (Cons t ts)
  show ?case
  proof (cases "count_tokens E (clean_markdown_text E t) < MIN_CHUNK_TOKENS")
    case True
    with Cons show ?thesis by (simp add: Let_def)
  next
    case False
    let ?acc = "acc @ [\<lparr>tc_content = clean_markdown_text E t, tc_markdown_content = t,
       tc_heading = extract_heading_from_chunk t, tc_chunk_num = length acc\<rparr>]"
    have "\<forall>j<length ?acc. tc_chunk_num (?acc ! j) = j"
      using Cons.prems(1) by (auto simp: nth_append less_Suc_eq)
    from Cons.IH[OF this] Cons.prems(2) False show ?thesis
      by (simp add: Let_def)
  qed
qed

lemma second_pass_nth:
  assumes "second_pass E md content pid n ts i = Inr cs"
  shows "length cs = length ts \<and>
    (\<forall>j<length ts.
       create_chunk E (tc_content (ts ! j)) (tc_heading (ts ! j)) md (tc_chunk_num (ts ! j)) ''post''
         (if i + j > 0 then Some (pid @ ''::ch'' @ py_str (int (i + j) - 1)) else None)
         (if int (i + j) < int n - 1 then Some (pid @ ''::ch'' @ py_str (int (i + j) + 1)) else None)
         (Some content) (Some (tc_markdown_content (ts ! j))) = Inr (cs ! j))"
  using assms
proof (induction ts arbitrary: i cs)
  case Nil
  then show ?case by simp
next
  case (Cons t ts)
  from Cons.prems obtain c cs' where
    c: "create_chunk E (tc_content t) (tc_heading t) md (tc_chunk_num t) ''post''
         (if i > 0 then Some (pid @ ''::ch'' @ py_str (int i - 1)) else None)
         (if int i < int n - 1 then Some (pid @ ''::ch'' @ py_str (int i + 1)) else None)
         (Some content) (Some (tc_markdown_content t)) = Inr c"
    and cs': "second_pass E md content pid n ts (Suc i) = Inr cs'"
    and cs: "cs = c # cs'"
    by (auto simp: Let_def split: sum.splits)
  from Cons.IH[OF cs'] have len: "length cs' = length ts"
    and nth: "\<And>j. j < length ts \<Longrightarrow>
       create_chunk E (tc_content (ts ! j)) (tc_heading (ts ! j)) md (tc_chunk_num (ts ! j)) ''post''
         (if Suc i + j > 0 then Some (pid @ ''::ch'' @ py_str (int (Suc i + j) - 1)) else None)
         (if int (Suc i + j) < int n - 1 then Some (pid @ ''::ch'' @ py_str (int (Suc i + j) + 1)) else None)
         (Some content) (Some (tc_markdown_content (ts ! j))) = Inr (cs' ! j)"
    by auto
  show ?case
  proof (intro conjI allI impI)
    show "length cs = length (t # ts)" using len cs by simp
  next
    fix j assume j: "j < length (t # ts)"
    show "create_chunk E (tc_content ((t # ts) ! j)) (tc_heading ((t # ts) ! j)) md
            (tc_chunk_num ((t # ts) ! j)) ''post''
         (if i + j > 0 then Some (pid @ ''::ch'' @ py_str (int (i + j) - 1)) else None)
         (if int (i + j) < int n - 1 then Some (pid @ ''::ch'' @ py_str (int (i + j) + 1)) else None)
         (Some content) (Some (tc_markdown_content ((t # ts) ! j))) = Inr (cs ! j)"
    proof (cases j)
      case 0
      then have eqs: "(t # ts) ! j = t" "i + j = i" "cs ! j = c"
        using cs by simp_all
      show ?thesis unfolding eqs using c .
    next
      case (Suc j')
      then have eqs: "(t # ts) ! j = ts ! j'" "i + j = Suc i + j'" "cs ! j = cs' ! j'"
        using cs by simp_all
      have "j' < length ts" using j Suc by simp
      from nth[OF this] show ?thesis unfolding eqs .
    qed
  qed
qed

lemma second_pass_complete:
  assumes "md_title md \<noteq> None" "md_slug md \<noteq> None" "md_date md \<noteq> None" "md_tags md \<noteq> None"
    "md_source_url md \<noteq> None" "md_post_path md \<noteq> None"
  shows "\<exists>cs. second_pass E md content pid n ts i = Inr cs"
proof (induction ts arbitrary: i)
  case Nil
  then show ?case by simp
next
  case (Cons t ts)
  from Cons[of "Suc i"] obtain cs where "second_pass E md content pid n ts (Suc i) = Inr cs" by blast
  moreover obtain c where "create_chunk E (tc_content t) (tc_heading t) md (tc_chunk_num t) ''post''
         (if i > 0 then Some (pid @ ''::ch'' @ py_str (int i - 1)) else None)
         (if int i < int n - 1 then Some (pid @ ''::ch'' @ py_str (int i + 1)) else None)
         (Some content) (Some (tc_markdown_content t)) = Inr c"
    using create_chunk_complete[OF assms] by blast
  ultimately show ?case by (simp add: Let_def)
qed

text \<open>With the six required metadata keys present, no \<open>KeyError\<close> is raised.\<close>

lemma chunk_content_returns:
  assumes "md_title md \<noteq> None" "md_slug md \<noteq> None" "md_date md \<noteq> None" "md_tags md \<noteq> None"
    "md_source_url md \<noteq> None" "md_post_path md \<noteq> None"
  shows "\<exists>cs. chunk_content_with_langchain E content md = Inr cs"
proof -
  from assms(2) obtain slug where "md_slug md = Some slug" by auto
  then show ?thesis
    using second_pass_complete[OF assms]
    by (simp add: chunk_content_with_langchain_def chunks_of_text_chunks_def Let_def)
qed

lemma chunks_of_text_chunks_nth:
  assumes "chunks_of_text_chunks E text_chunks content md = Inr cs"
  shows "\<exists>slug. md_slug md = Some slug \<and>
      length cs = length (first_pass E text_chunks []) \<and>
      (\<forall>j<length cs.
         chunk_id (cs ! j) = ''post:'' @ slug @ ''::ch'' @ py_str (int j) \<and>
         chunk_number (cs ! j) = j \<and>
         prev_id (cs ! j) =
           (if j > 0 then Some (''post:'' @ slug @ ''::ch'' @ py_str (int j - 1)) else None) \<and>
         next_id (cs ! j) =
           (if int j < int (length cs) - 1
            then Some (''post:'' @ slug @ ''::ch'' @ py_str (int j + 1)) else None) \<and>
         links (cs ! j) = extract_markdown_links E (tc_content (first_pass E text_chunks [] ! j)) \<and>
         display_markdown (cs ! j) =
           (if tc_markdown_content (first_pass E text_chunks [] ! j) = []
            then tc_content (first_pass E text_chunks [] ! j)
            else tc_markdown_content (first_pass E text_chunks [] ! j)))"
proof -
  let ?ts = "first_pass E text_chunks []"
  from assms obtain slug where slug: "md_slug md = Some slug"
    and sp: "second_pass E md content (''post:'' @ slug) (length ?ts) ?ts 0 = Inr cs"
    by (auto simp: chunks_of_text_chunks_def Let_def split: option.splits)
  from second_pass_nth[OF sp] have len: "length cs = length ?ts"
    and nth: "\<And>j. j < length ?ts \<Longrightarrow>
       create_chunk E (tc_content (?ts ! j)) (tc_heading (?ts ! j)) md (tc_chunk_num (?ts ! j)) ''post''
         (if 0 + j > 0 then Some ((''post:'' @ slug) @ ''::ch'' @ py_str (int (0 + j) - 1)) else None)
         (if int (0 + j) < int (length ?ts) - 1
          then Some ((''post:'' @ slug) @ ''::ch'' @ py_str (int (0 + j) + 1)) else None)
         (Some content) (Some (tc_markdown_content (?ts ! j))) = Inr (cs ! j)"
    by auto
  have "chunk_id (cs ! j) = ''post:'' @ slug @ ''::ch'' @ py_str (int j) \<and>
         chunk_number (cs ! j) = j \<and>
         prev_id (cs ! j) =
           (if j > 0 then Some (''post:'' @ slug @ ''::ch'' @ py_str (int j - 1)) else None) \<and>
         next_id (cs ! j) =
           (if int j < int (length cs) - 1
            then Some (''post:'' @ slug @ ''::ch'' @ py_str (int j + 1)) else None) \<and>
         links (cs ! j) = extract_markdown_links E (tc_content (?ts ! j)) \<and>
         display_markdown (cs ! j) =
           (if tc_markdown_content (?ts ! j) = [] then tc_content (?ts ! j)
            else tc_markdown_content (?ts ! j))" if j: "j < length cs" for j
  proof -
    have jt: "j < length ?ts" using j len by simp
    have num: "tc_chunk_num (?ts ! j) = j"
      by (rule first_pass_chunk_num[OF _ jt]) simp
    note cc = nth[OF jt]
    from create_chunk_fields(1)[OF cc] slug num
    have id: "chunk_id (cs ! j) = ''post:'' @ slug @ ''::ch'' @ py_str (int j)"
      by simp
    from create_chunk_fields(2,3,4,5,6)[OF cc] id num len show ?thesis
      by (simp add: falsy_def get_or_def)
  qed
  with slug len show ?thesis by blast
qed


lemma first_pass_nth:
  assumes "j < length (first_pass E tcs [])"
  shows "tc_markdown_content (first_pass E tcs [] ! j) =
           filter (\<lambda>t. \<not> count_tokens E (clean_markdown_text E t) < MIN_CHUNK_TOKENS) tcs ! j"
    and "tc_content (first_pass E tcs [] ! j) =
           clean_markdown_text E
             (filter (\<lambda>t. \<not> count_tokens E (clean_markdown_text E t) < MIN_CHUNK_TOKENS) tcs ! j)"
    and "length (first_pass E tcs []) =
           length (filter (\<lambda>t. \<not> count_tokens E (clean_markdown_text E t) < MIN_CHUNK_TOKENS) tcs)"
proof -
  let ?ts = "first_pass E tcs []"
  let ?k = "filter (\<lambda>t. \<not> count_tokens E (clean_markdown_text E t) < MIN_CHUNK_TOKENS) tcs"
  have m: "map tc_markdown_content ?ts = ?k"
    using first_pass_markdown[of E tcs "[]"] by simp
  have c: "map tc_content ?ts = map (clean_markdown_text E) ?k"
    using first_pass_content[of E tcs "[]"] by simp
  from m show len: "length ?ts = length ?k"
    by (metis length_map)
  from m assms show "tc_markdown_content (?ts ! j) = ?k ! j"
    by (metis nth_map)
  from c assms len show "tc_content (?ts ! j) = clean_markdown_text E (?k ! j)"
    by (metis nth_map)
qed


text \<open>The definitions unfolded to evaluate a concrete run.\<close>

lemmas eval_defs = chunk_content_with_langchain_def chunks_of_text_chunks_def Let_def create_chunk_def
  count_tokens_fallback_def MIN_CHUNK_TOKENS_def extract_heading_from_chunk_def strip_def
  is_space_def whitespace_chars_def startswith_def falsy_def get_or_def calculate_char_offsets_def
  py_find_def py_str_def str_nat.simps digit_char_def


lemma emitted_chunks_display:
  assumes "chunk_content_with_langchain E content md = Inr cs"
  shows "map display_markdown cs =
           map (\<lambda>t. if t = [] then clean_markdown_text E t else t)
             (filter (\<lambda>t. \<not> count_tokens E (clean_markdown_text E t) < MIN_CHUNK_TOKENS)
                (split_text E content)) \<and>
         map chunk_number cs = [0..<length cs]"
proof -
  let ?tcs = "split_text E content"
  let ?ts = "first_pass E ?tcs []"
  let ?k = "filter (\<lambda>t. \<not> count_tokens E (clean_markdown_text E t) < MIN_CHUNK_TOKENS) ?tcs"
  from assms have a: "chunks_of_text_chunks E ?tcs content md = Inr cs"
    by (simp add: chunk_content_with_langchain_def)
  from chunks_of_text_chunks_nth[OF a] have len: "length cs = length ?ts"
    and nth: "\<And>j. j < length cs \<Longrightarrow> chunk_number (cs ! j) = j \<and>
         display_markdown (cs ! j) =
           (if tc_markdown_content (?ts ! j) = [] then tc_content (?ts ! j)
            else tc_markdown_content (?ts ! j))"
    by auto
  have lk: "length cs = length ?k"
    using len first_pass_markdown[of E ?tcs "[]"] by (metis append_Nil length_map list.simps(8))
  have "map display_markdown cs = map (\<lambda>t. if t = [] then clean_markdown_text E t else t) ?k"
  proof (rule nth_equalityI)
    show "length (map display_markdown cs) =
          length (map (\<lambda>t. if t = [] then clean_markdown_text E t else t) ?k)"
      using lk by simp
  next
    fix j assume "j < length (map display_markdown cs)"
    then have j: "j < length cs" by simp
    then have jt: "j < length ?ts" using len by simp
    show "map display_markdown cs ! j =
          map (\<lambda>t. if t = [] then clean_markdown_text E t else t) ?k ! j"
      using nth[OF j] first_pass_nth(1,2)[OF jt] j lk by simp
  qed
  moreover have "map chunk_number cs = [0..<length cs]"
    by (rule nth_equalityI) (simp_all add: nth)
  ultimately show ?thesis by simp
qed

section \<open>Claims about chunk\_content\_with\_langchain\<close>

text \<open>
  C5 (sequential linkage). For a document for which \<open>chunk_content_with_langchain\<close>
  returns N chunks, chunk i's \<open>prev_id\<close> is absent for i = 0 and is the id of chunk
  i - 1 otherwise, and its \<open>next_id\<close> is absent for i = N - 1 and is the id of chunk
  i + 1 otherwise.
\<close>

theorem sequential_linkage:
  assumes "chunk_content_with_langchain E content md = Inr cs"
  shows "\<forall>i<length cs.
           prev_id (cs ! i) = (if i = 0 then None else Some (chunk_id (cs ! (i - 1)))) \<and>
           next_id (cs ! i) = (if Suc i = length cs then None else Some (chunk_id (cs ! Suc i)))"
proof (intro allI impI)
  fix i assume i: "i < length cs"
  from assms have a: "chunks_of_text_chunks E (split_text E content) content md = Inr cs"
    by (simp add: chunk_content_with_langchain_def)
  from chunks_of_text_chunks_nth[OF a] obtain slug where
    nth: "\<And>j. j < length cs \<Longrightarrow>
         chunk_id (cs ! j) = ''post:'' @ slug @ ''::ch'' @ py_str (int j) \<and>
         prev_id (cs ! j) =
           (if j > 0 then Some (''post:'' @ slug @ ''::ch'' @ py_str (int j - 1)) else None) \<and>
         next_id (cs ! j) =
           (if int j < int (length cs) - 1
            then Some (''post:'' @ slug @ ''::ch'' @ py_str (int j + 1)) else None)"
    by blast
  have p: "prev_id (cs ! i) = (if i = 0 then None else Some (chunk_id (cs ! (i - 1))))"
  proof (cases "i = 0")
    case True
    with nth[OF i] show ?thesis by simp
  next
    case False
    then have "i - 1 < length cs" "int (i - 1) = int i - 1" using i by simp_all
    with nth[OF i] nth[of "i - 1"] False show ?thesis by simp
  qed
  have n: "next_id (cs ! i) = (if Suc i = length cs then None else Some (chunk_id (cs ! Suc i)))"
  proof (cases "Suc i = length cs")
    case True
    then have "\<not> int i < int (length cs) - 1" by simp
    with nth[OF i] True show ?thesis by simp
  next
    case False
    then have s: "Suc i < length cs" "int i < int (length cs) - 1" using i by simp_all
    have "py_str (int i + 1) = py_str (1 + int i)" by (simp add: add.commute)
    with nth[OF i] nth[OF s(1)] s False show ?thesis by simp
  qed
  from p n show "prev_id (cs ! i) = (if i = 0 then None else Some (chunk_id (cs ! (i - 1)))) \<and>
           next_id (cs ! i) = (if Suc i = length cs then None else Some (chunk_id (cs ! Suc i)))"
    by simp
qed

text \<open>
  A run with three packed chunks of 200 characters each (50 tokens under the fallback
  counter), with stand-ins for the collaborators.
\<close>

theorem sequential_linkage_witness:
  "map (\<lambda>c. (prev_id c, chunk_id c, next_id c))
     (projr (chunk_content_with_langchain
       \<lparr>clean_markdown_text = (\<lambda>s. s), extract_markdown_links = (\<lambda>s. []),
        get_chunk_header_context =
          (\<lambda>full c. \<lparr>hc_header_path = None, hc_header_hierarchy = None\<rparr>),
        count_tokens = count_tokens_fallback,
        split_text =
          (\<lambda>s. [replicate 200 CHR ''a'', replicate 200 CHR ''b'', replicate 200 CHR ''c'']),
        sha256_hexdigest = (\<lambda>s. [])\<rparr>
       ''doc''
       \<lparr>md_title = Some ''T'', md_date = Some ''2024-01-01'', md_slug = Some ''s'',
        md_tags = Some [], md_source_url = Some ''u'', md_post_path = Some ''p'',
        md_original_file_sha256 = None, md_images = []\<rparr>)) =
   [(None, ''post:s::ch0'', Some ''post:s::ch1''),
    (Some ''post:s::ch0'', ''post:s::ch1'', Some ''post:s::ch2''),
    (Some ''post:s::ch1'', ''post:s::ch2'', None)]"
  (is "map _ (projr ?F) = _")
proof -
  have ids: "map chunk_id (projr ?F) = [''post:s::ch0'', ''post:s::ch1'', ''post:s::ch2'']"
    by (simp add: eval_defs)
  have h: "?F = Inr (projr ?F)"
    by (simp add: eval_defs)
  have len: "length (projr ?F) = 3"
    using ids by (metis length_map length_Cons list.size(3) numeral_3_eq_3)
  then obtain c0 c1 c2 where cs: "projr ?F = [c0, c1, c2]"
    by (auto simp: length_Suc_conv numeral_3_eq_3)
  from sequential_linkage[OF h] have
    "\<forall>i<length (projr ?F).
           prev_id (projr ?F ! i) = (if i = 0 then None else Some (chunk_id (projr ?F ! (i - 1)))) \<and>
           next_id (projr ?F ! i) =
             (if Suc i = length (projr ?F) then None else Some (chunk_id (projr ?F ! Suc i)))" .
  then have "\<forall>i<3.
           prev_id ([c0, c1, c2] ! i) = (if i = 0 then None else Some (chunk_id ([c0, c1, c2] ! (i - 1)))) \<and>
           next_id ([c0, c1, c2] ! i) =
             (if Suc i = 3 then None else Some (chunk_id ([c0, c1, c2] ! Suc i)))"
    unfolding cs by simp
  then have "prev_id c0 = None \<and> next_id c0 = Some (chunk_id c1) \<and>
     prev_id c1 = Some (chunk_id c0) \<and> next_id c1 = Some (chunk_id c2) \<and>
     prev_id c2 = Some (chunk_id c1) \<and> next_id c2 = None"
    by (simp add: numeral_3_eq_3 less_Suc_eq all_conj_distrib)
  with ids show ?thesis unfolding cs by simp
qed






text \<open>
  C8. The \<open>links\<close> field of every chunk emitted by \<open>chunk_content_with_langchain\<close>
  is \<open>extract_markdown_links\<close> applied to the cleaned text of the packed chunk:
  \<open>create_chunk\<close> extracts from its \<open>content\<close> argument, and the caller passes
  \<open>clean_markdown_text(chunk_text)\<close> there, not the raw \<open>chunk_text\<close>. The claim
  asks for extraction from the raw form; the code does not do that.
\<close>

theorem links_extracted_from_cleaned_text:
  assumes "chunk_content_with_langchain E content md = Inr cs"
  shows "map links cs =
           map (\<lambda>t. extract_markdown_links E (clean_markdown_text E t))
             (filter (\<lambda>t. \<not> count_tokens E (clean_markdown_text E t) < MIN_CHUNK_TOKENS)
                (split_text E content))"
proof -
  let ?tcs = "split_text E content"
  let ?ts = "first_pass E ?tcs []"
  let ?k = "filter (\<lambda>t. \<not> count_tokens E (clean_markdown_text E t) < MIN_CHUNK_TOKENS) ?tcs"
  from assms have a: "chunks_of_text_chunks E ?tcs content md = Inr cs"
    by (simp add: chunk_content_with_langchain_def)
  from chunks_of_text_chunks_nth[OF a] have len: "length cs = length ?ts"
    and nth: "\<And>j. j < length cs \<Longrightarrow>
         links (cs ! j) = extract_markdown_links E (tc_content (?ts ! j))"
    by auto
  have lk: "length cs = length ?k"
    using len first_pass_markdown[of E ?tcs "[]"] by (metis append_Nil length_map list.simps(8))
  show ?thesis
  proof (rule nth_equalityI)
    show "length (map links cs) =
          length (map (\<lambda>t. extract_markdown_links E (clean_markdown_text E t)) ?k)"
      using lk by simp
  next
    fix j assume "j < length (map links cs)"
    then have j: "j < length cs" by simp
    then have jt: "j < length ?ts" using len by simp
    show "map links cs ! j =
          map (\<lambda>t. extract_markdown_links E (clean_markdown_text E t)) ?k ! j"
      using nth[OF j] first_pass_nth(2)[OF jt] j lk by simp
  qed
qed

text \<open>
  A run in which the stand-in for \<open>clean_markdown_text\<close> removes asterisks and the
  stand-in for \<open>extract_markdown_links\<close> reports the text it was given: it was given
  the cleaned text.
\<close>

theorem links_extracted_from_cleaned_text_witness:
  "map links
     (projr (chunk_content_with_langchain
       \<lparr>clean_markdown_text = filter (\<lambda>c. c \<noteq> CHR ''*''),
        extract_markdown_links = (\<lambda>s. [(''argument'', s)]),
        get_chunk_header_context =
          (\<lambda>full c. \<lparr>hc_header_path = None, hc_header_hierarchy = None\<rparr>),
        count_tokens = count_tokens_fallback,
        split_text = (\<lambda>s. [''**'' @ replicate 200 CHR ''a'' @ ''**'']),
        sha256_hexdigest = (\<lambda>s. [])\<rparr>
       ''doc''
       \<lparr>md_title = Some ''T'', md_date = Some ''2024-01-01'', md_slug = Some ''s'',
        md_tags = Some [], md_source_url = Some ''u'', md_post_path = Some ''p'',
        md_original_file_sha256 = None, md_images = []\<rparr>)) =
   [[(''argument'', replicate 200 CHR ''a'')]]"
  (is "map _ (projr ?F) = _")
proof -
  have h: "?F = Inr (projr ?F)"
    by (simp add: eval_defs)
  from links_extracted_from_cleaned_text[OF h] show ?thesis
    by (simp add: count_tokens_fallback_def MIN_CHUNK_TOKENS_def)
qed

section \<open>Properties of word splitting and of the hard cut\<close>


lemma split_ws_space:
  "is_space c \<Longrightarrow> split_ws cur (a @ c # b) = split_ws cur a @ split_ws [] b"
  by (induction a arbitrary: cur) auto

lemma split_ws_word:
  "\<forall>c\<in>set w. \<not> is_space c \<Longrightarrow> split_ws cur (w @ s) = split_ws (cur @ w) s"
  by (induction w arbitrary: cur) auto

lemma split_ws_spaces:
  "\<forall>c\<in>set sp. is_space c \<Longrightarrow> split_ws [] (sp @ s) = split_ws [] s"
  by (induction sp) auto

lemma split_ws_wordlike:
  "\<forall>c\<in>set cur. \<not> is_space c \<Longrightarrow> \<forall>w\<in>set (split_ws cur s). wordlike w"
proof (induction s arbitrary: cur)
  case Nil
  then show ?case by (auto simp: wordlike_def)
next
  case (Cons a s)
  show ?case
  proof (cases "is_space a")
    case True
    have "\<forall>w\<in>set (split_ws [] s). wordlike w"
      by (rule Cons.IH) simp
    with True Cons.prems show ?thesis
      by (auto simp: wordlike_def)
  next
    case False
    have "\<forall>w\<in>set (split_ws (cur @ [a]) s). wordlike w"
      by (rule Cons.IH) (use False Cons.prems in auto)
    with False show ?thesis by simp
  qed
qed

lemma py_split_wordlike: "\<forall>w\<in>set (py_split s). wordlike w"
  using split_ws_wordlike[of "[]" s] by (simp add: py_split_def)

lemma py_split_single: "wordlike w \<Longrightarrow> py_split w = [w]"
  using split_ws_word[of w "[]" "[]"] by (simp add: py_split_def wordlike_def)

lemma is_space_blank [simp]: "is_space CHR '' ''" "is_space CHR 0x0A"
  by (simp_all add: is_space_def whitespace_chars_def)

lemma py_split_join:
  "\<forall>w\<in>set ws. wordlike w \<Longrightarrow> py_split (py_join '' '' ws) = ws"
proof (induction ws)
  case Nil
  then show ?case by (simp add: py_split_def)
next
  case (Cons x ws)
  show ?case
  proof (cases ws)
    case Nil
    with Cons.prems show ?thesis by (simp add: py_split_single)
  next
    case (Cons y ys)
    have "py_split (x @ CHR '' '' # py_join '' '' ws) =
          split_ws [] x @ split_ws [] (py_join '' '' ws)"
      unfolding py_split_def by (rule split_ws_space) simp
    moreover have "split_ws [] x = [x]"
      using py_split_single[of x] Cons.prems by (simp add: py_split_def)
    moreover have "split_ws [] (py_join '' '' ws) = ws"
      using Cons.IH Cons.prems by (simp add: py_split_def)
    ultimately show ?thesis
      using Cons by simp
  qed
qed

lemma py_split_dropWhile: "py_split (dropWhile is_space s) = py_split s"
  by (induction s) (auto simp: py_split_def)

lemma split_ws_trailing:
  "\<forall>c\<in>set sp. is_space c \<Longrightarrow> split_ws cur (t @ sp) = split_ws cur t"
proof (cases sp)
  case Nil
  then show ?thesis by simp
next
  case (Cons c sp')
  assume a: "\<forall>c\<in>set sp. is_space c"
  with Cons have "split_ws [] sp' = []"
    using split_ws_spaces[of sp' "[]"] by simp
  with a Cons show ?thesis
    using split_ws_space[of c cur t sp'] by simp
qed

lemma rstrip_decomp:
  "s = rev (dropWhile is_space (rev s)) @ rev (takeWhile is_space (rev s))"
  by (metis rev_append rev_rev_ident takeWhile_dropWhile_id)

lemma py_split_rstrip: "py_split (rev (dropWhile is_space (rev s))) = py_split s"
proof -
  have "\<forall>c\<in>set (rev (takeWhile is_space (rev s))). is_space c"
    by (auto dest: set_takeWhileD)
  from split_ws_trailing[OF this, of "[]" "rev (dropWhile is_space (rev s))"]
  show ?thesis
    unfolding py_split_def using rstrip_decomp[of s] by simp
qed

lemma py_split_strip: "py_split (strip s) = py_split s"
  unfolding strip_def by (simp add: py_split_rstrip py_split_dropWhile)

lemma py_split_strip_join:
  "\<forall>w\<in>set ws. wordlike w \<Longrightarrow> py_split (strip (py_join '' '' ws)) = ws"
  by (simp add: py_split_strip py_split_join)

lemma strip_wordlike: "wordlike w \<Longrightarrow> strip w = w"
proof -
  assume w: "wordlike w"
  then obtain c cs where c: "w = c # cs" "\<not> is_space c"
    by (cases w) (auto simp: wordlike_def)
  then have 1: "dropWhile is_space w = w" by simp
  from w have "rev w \<noteq> []" "\<not> is_space (hd (rev w))"
    by (auto simp: wordlike_def hd_rev)
  then have 2: "dropWhile is_space (rev w) = rev w"
    by (cases "rev w") auto
  from 1 2 show ?thesis by (simp add: strip_def)
qed

lemma hard_cut_loop_groups:
  assumes "ct = sum_list (map (\<lambda>w. tok (w @ '' '')) cur)"
    and "length cur \<le> 1 \<or> int (sum_list (map (\<lambda>w. tok (w @ '' '')) cur)) \<le> mx"
  shows "\<exists>gs cur' ct'.
           hard_cut_loop tok mx ws out cur ct =
             (out @ map (\<lambda>g. strip (py_join '' '' g)) gs, cur', ct') \<and>
           concat gs @ cur' = cur @ ws \<and>
           (\<forall>g\<in>set gs. g \<noteq> [] \<and>
               (length g = 1 \<or> int (sum_list (map (\<lambda>w. tok (w @ '' '')) g)) \<le> mx)) \<and>
           (length cur' \<le> 1 \<or> int (sum_list (map (\<lambda>w. tok (w @ '' '')) cur')) \<le> mx)"
  using assms
proof (induction ws arbitrary: out cur ct)
  case Nil
  show ?case
    by (rule exI[of _ "[]"]) (use Nil in simp)
next
  case (Cons w ws)
  let ?wtok = "tok (w @ '' '')"
  show ?case
  proof (cases "int (ct + ?wtok) > mx \<and> cur \<noteq> []")
    case True
    have "\<exists>gs cur' ct'.
           hard_cut_loop tok mx ws (out @ [strip (py_join '' '' cur)]) [w] ?wtok =
             ((out @ [strip (py_join '' '' cur)]) @ map (\<lambda>g. strip (py_join '' '' g)) gs,
              cur', ct') \<and>
           concat gs @ cur' = [w] @ ws \<and>
           (\<forall>g\<in>set gs. g \<noteq> [] \<and>
               (length g = 1 \<or> int (sum_list (map (\<lambda>w. tok (w @ '' '')) g)) \<le> mx)) \<and>
           (length cur' \<le> 1 \<or> int (sum_list (map (\<lambda>w. tok (w @ '' '')) cur')) \<le> mx)"
      by (rule Cons.IH) simp_all
    then obtain gs cur' ct' where
      r: "hard_cut_loop tok mx ws (out @ [strip (py_join '' '' cur)]) [w] ?wtok =
             ((out @ [strip (py_join '' '' cur)]) @ map (\<lambda>g. strip (py_join '' '' g)) gs,
              cur', ct')"
      and c: "concat gs @ cur' = [w] @ ws"
      and g: "\<forall>g\<in>set gs. g \<noteq> [] \<and>
               (length g = 1 \<or> int (sum_list (map (\<lambda>w. tok (w @ '' '')) g)) \<le> mx)"
      and k: "length cur' \<le> 1 \<or> int (sum_list (map (\<lambda>w. tok (w @ '' '')) cur')) \<le> mx"
      by blast
    have cur1: "length cur = 1 \<or> int (sum_list (map (\<lambda>w. tok (w @ '' '')) cur)) \<le> mx"
      using Cons.prems(2) True by (cases cur) auto
    show ?thesis
      apply (rule exI[of _ "cur # gs"], rule exI[of _ cur'], rule exI[of _ ct'])
      using True r c g k cur1 by (simp add: Let_def)
  next
    case False
    have pre: "length (cur @ [w]) \<le> 1 \<or>
          int (sum_list (map (\<lambda>w. tok (w @ '' '')) (cur @ [w]))) \<le> mx"
      using False Cons.prems(1) by auto
    have "\<exists>gs cur' ct'.
           hard_cut_loop tok mx ws out (cur @ [w]) (ct + ?wtok) =
             (out @ map (\<lambda>g. strip (py_join '' '' g)) gs, cur', ct') \<and>
           concat gs @ cur' = (cur @ [w]) @ ws \<and>
           (\<forall>g\<in>set gs. g \<noteq> [] \<and>
               (length g = 1 \<or> int (sum_list (map (\<lambda>w. tok (w @ '' '')) g)) \<le> mx)) \<and>
           (length cur' \<le> 1 \<or> int (sum_list (map (\<lambda>w. tok (w @ '' '')) cur')) \<le> mx)"
      by (rule Cons.IH) (use Cons.prems(1) pre in simp_all)
    then obtain gs cur' ct' where
      r: "hard_cut_loop tok mx ws out (cur @ [w]) (ct + ?wtok) =
             (out @ map (\<lambda>g. strip (py_join '' '' g)) gs, cur', ct')"
      and c: "concat gs @ cur' = (cur @ [w]) @ ws"
      and g: "\<forall>g\<in>set gs. g \<noteq> [] \<and>
               (length g = 1 \<or> int (sum_list (map (\<lambda>w. tok (w @ '' '')) g)) \<le> mx)"
      and k: "length cur' \<le> 1 \<or> int (sum_list (map (\<lambda>w. tok (w @ '' '')) cur')) \<le> mx"
      by blast
    show ?thesis
      apply (rule exI[of _ gs], rule exI[of _ cur'], rule exI[of _ ct'])
      using False r c g k by (auto simp: Let_def)
  qed
qed

lemma hard_cut_groups:
  "\<exists>gs. hard_cut tok mx s = map (\<lambda>g. strip (py_join '' '' g)) gs \<and>
        concat gs = py_split s \<and>
        (\<forall>g\<in>set gs. g \<noteq> [] \<and>
            (length g = 1 \<or> int (sum_list (map (\<lambda>w. tok (w @ '' '')) g)) \<le> mx))"
proof -
  have "\<exists>gs cur' ct'.
           hard_cut_loop tok mx (py_split s) [] [] 0 =
             ([] @ map (\<lambda>g. strip (py_join '' '' g)) gs, cur', ct') \<and>
           concat gs @ cur' = [] @ py_split s \<and>
           (\<forall>g\<in>set gs. g \<noteq> [] \<and>
               (length g = 1 \<or> int (sum_list (map (\<lambda>w. tok (w @ '' '')) g)) \<le> mx)) \<and>
           (length cur' \<le> 1 \<or> int (sum_list (map (\<lambda>w. tok (w @ '' '')) cur')) \<le> mx)"
    by (rule hard_cut_loop_groups) simp_all
  then obtain gs cur' ct' where
    r: "hard_cut_loop tok mx (py_split s) [] [] 0 =
          (map (\<lambda>g. strip (py_join '' '' g)) gs, cur', ct')"
    and c: "concat gs @ cur' = py_split s"
    and g: "\<forall>g\<in>set gs. g \<noteq> [] \<and>
               (length g = 1 \<or> int (sum_list (map (\<lambda>w. tok (w @ '' '')) g)) \<le> mx)"
    and k: "length cur' \<le> 1 \<or> int (sum_list (map (\<lambda>w. tok (w @ '' '')) cur')) \<le> mx"
    by auto
  show ?thesis
  proof (cases "cur' = []")
    case True
    with r c g show ?thesis
      by (intro exI[of _ gs]) (simp add: hard_cut_def)
  next
    case False
    then have "length cur' = 1 \<or> int (sum_list (map (\<lambda>w. tok (w @ '' '')) cur')) \<le> mx"
      using k by (cases cur') auto
    with False r c g show ?thesis
      by (intro exI[of _ "gs @ [cur']"]) (simp add: hard_cut_def)
  qed
qed

lemma concat_nonempty_length:
  assumes "\<forall>g\<in>set gs. g \<noteq> []" "length gs > 1" "g \<in> set gs"
  shows "length g < length (concat gs)"
  using assms
proof (induction gs)
  case Nil
  then show ?case by simp
next
  case (Cons h gs)
  show ?case
  proof (cases "g = h")
    case True
    from Cons.prems(2) obtain k ks where "gs = k # ks" by (cases gs) auto
    with Cons.prems(1) have "length (concat gs) > 0" by auto
    with True show ?thesis by simp
  next
    case False
    with Cons.prems have gin: "g \<in> set gs" by simp
    have "length g \<le> length (concat gs)"
      using gin by (induction gs) auto
    moreover have "length h > 0" using Cons.prems(1) by simp
    ultimately show ?thesis by (cases h) auto
  qed
qed

lemma concat_single:
  assumes "concat gs = [w]" "\<forall>g\<in>set gs. g \<noteq> []"
  shows "gs = [[w]]"
proof (cases gs)
  case Nil
  with assms show ?thesis by simp
next
  case (Cons a list)
  with assms have a: "a @ concat list = [w]" "a \<noteq> []" by simp_all
  then have aw: "a = [w]" and cl: "concat list = []"
    by (cases a; simp)+
  have "list = []"
  proof (cases list)
    case Nil
    then show ?thesis .
  next
    case (Cons b bs)
    with cl have "b = []" by simp
    with Cons assms(2) \<open>gs = a # list\<close> show ?thesis by simp
  qed
  with aw Cons show ?thesis by simp
qed

text \<open>
  C9, as amended. \<open>_hard_cut\<close> is a total function (a loop over the words of the
  input), and it keeps every word: the words of its pieces, in order, are the words of
  the input. An input that is a single word is returned as one piece, whatever its token
  count. Every piece has at least one word, and a piece of more than one word has a
  running total of \<open>tok(w + " ")\<close> over its words within \<open>max_toks\<close>. Whenever
  more than one piece is produced, each piece has strictly fewer words than the input.
  Nothing is promised about the token count of a piece against that of the input.
\<close>

theorem hard_cut_total_and_word_preserving:
  "concat (map py_split (hard_cut tok max_toks s)) = py_split s \<and>
   (\<forall>w. py_split s = [w] \<longrightarrow> hard_cut tok max_toks s = [w]) \<and>
   (\<forall>p\<in>set (hard_cut tok max_toks s).
      py_split p \<noteq> [] \<and>
      (length (py_split p) = 1 \<or>
       int (sum_list (map (\<lambda>w. tok (w @ '' '')) (py_split p))) \<le> max_toks)) \<and>
   (length (hard_cut tok max_toks s) > 1 \<longrightarrow>
      (\<forall>p\<in>set (hard_cut tok max_toks s). length (py_split p) < length (py_split s)))"
proof -
  obtain gs where h: "hard_cut tok max_toks s = map (\<lambda>g. strip (py_join '' '' g)) gs"
    and c: "concat gs = py_split s"
    and g: "\<forall>g\<in>set gs. g \<noteq> [] \<and>
            (length g = 1 \<or> int (sum_list (map (\<lambda>w. tok (w @ '' '')) g)) \<le> max_toks)"
    using hard_cut_groups by blast
  have wl: "\<forall>g\<in>set gs. \<forall>w\<in>set g. wordlike w"
    using py_split_wordlike[of s] c by (metis UN_I set_concat)
  have sp: "py_split (strip (py_join '' '' g)) = g" if "g \<in> set gs" for g
    using wl that by (simp add: py_split_strip_join)
  have m: "map py_split (hard_cut tok max_toks s) = gs"
    unfolding h by (simp add: sp map_idI)
  have 1: "concat (map py_split (hard_cut tok max_toks s)) = py_split s"
    using m c by simp
  have 2: "hard_cut tok max_toks s = [w]" if w: "py_split s = [w]" for w
  proof -
    from c w g have "gs = [[w]]"
      by (intro concat_single) auto
    moreover have "wordlike w" using py_split_wordlike[of s] w by simp
    ultimately show ?thesis using h by (simp add: strip_wordlike)
  qed
  have 3: "py_split p \<noteq> [] \<and>
      (length (py_split p) = 1 \<or>
       int (sum_list (map (\<lambda>w. tok (w @ '' '')) (py_split p))) \<le> max_toks)"
    if "p \<in> set (hard_cut tok max_toks s)" for p
  proof -
    from that h obtain g' where "g' \<in> set gs" "p = strip (py_join '' '' g')" by auto
    with sp g show ?thesis by auto
  qed
  have 4: "length (py_split p) < length (py_split s)"
    if l: "length (hard_cut tok max_toks s) > 1" and p: "p \<in> set (hard_cut tok max_toks s)" for p
  proof -
    from p h obtain g' where g': "g' \<in> set gs" "p = strip (py_join '' '' g')" by auto
    have "length gs > 1" using l h by simp
    from concat_nonempty_length[OF _ this g'(1)] g have "length g' < length (concat gs)"
      by blast
    with g' sp c show ?thesis by simp
  qed
  from 1 2 3 4 show ?thesis by blast
qed

text \<open>The definitions unfolded to evaluate the hard cut on a concrete text.\<close>

lemmas chunker_eval_defs = hard_cut_def py_split_def heuristic_count_def strip_def is_space_def
  whitespace_chars_def Let_def

text \<open>
  A single word of 4 tokens under a budget of 2, and a text of three words that is cut
  in two pieces.
\<close>

theorem hard_cut_total_and_word_preserving_witness:
  "hard_cut heuristic_count 2 ''abcdefghijklmnop'' = [''abcdefghijklmnop''] \<and>
   int (heuristic_count ''abcdefghijklmnop'') > 2 \<and>
   hard_cut heuristic_count 2 ''aaaa bbbb cccc'' = [''aaaa bbbb'', ''cccc''] \<and>
   length (py_split ''aaaa bbbb'') < length (py_split ''aaaa bbbb cccc'') \<and>
   length (py_split ''cccc'') < length (py_split ''aaaa bbbb cccc'')"
proof -
  have w: "py_split ''abcdefghijklmnop'' = [''abcdefghijklmnop'']"
    by (simp add: chunker_eval_defs)
  have e: "hard_cut heuristic_count 2 ''aaaa bbbb cccc'' = [''aaaa bbbb'', ''cccc'']"
    by (simp add: chunker_eval_defs)
  have t: "int (heuristic_count ''abcdefghijklmnop'') > 2"
    by (simp add: heuristic_count_def)
  from hard_cut_total_and_word_preserving[of heuristic_count 2 "''abcdefghijklmnop''"] w
  have 1: "hard_cut heuristic_count 2 ''abcdefghijklmnop'' = [''abcdefghijklmnop'']"
    by blast
  from hard_cut_total_and_word_preserving[of heuristic_count 2 "''aaaa bbbb cccc''"] e
  have 2: "\<forall>p\<in>set [''aaaa bbbb'', ''cccc''].
            length (py_split p) < length (py_split ''aaaa bbbb cccc'')"
    by simp
  from 1 2 e t show ?thesis by simp
qed

text \<open>
  C9 as stated fails: with the heuristic counter and a budget of 2, the two-word text
  \<open>abcdef abcdef\<close> (3 tokens) comes back as one piece with the same 3 tokens, since
  each word counts 1 token on its own.
\<close>

theorem hard_cut_not_reducing_counterexample:
  "length (py_split ''abcdef abcdef'') = 2 \<and>
   int (heuristic_count ''abcdef abcdef'') > 2 \<and>
   hard_cut heuristic_count 2 ''abcdef abcdef'' = [''abcdef abcdef''] \<and>
   \<not> (\<forall>p\<in>set (hard_cut heuristic_count 2 ''abcdef abcdef'').
         heuristic_count p < heuristic_count ''abcdef abcdef'')"
  by (simp add: chunker_eval_defs)

section \<open>Properties of the greedy packer\<close>

lemma pack_step_within:
  assumes "int (tok (parts st ! idx st)) \<le> mx"
  shows "pack_step tok mx mn st =
           (if int (buf_tokens st + tok (parts st ! idx st)) \<le> mx
            then st\<lparr>buf := buf st @ [parts st ! idx st],
                    buf_tokens := buf_tokens st + tok (parts st ! idx st),
                    idx := idx st + 1\<rparr>
            else flush tok st)"
  using assms by (simp add: pack_step_def Let_def)

lemma flush_nonempty:
  assumes "buf st \<noteq> []"
  shows "flush tok st =
           st\<lparr>chunks := chunks st @
                  [\<lparr>pk_id = length (chunks st),
                    pk_text = strip (py_join [CHR 0x0A, CHR 0x0A] (buf st)),
                    n_tokens = tok (strip (py_join [CHR 0x0A, CHR 0x0A] (buf st))),
                    meta_structure = None\<rparr>],
               buf := [], buf_tokens := 0\<rparr>"
  using assms by (simp add: flush_def Let_def)


lemma concat_hd_hd:
  assumes "concat gs = p # rest" "\<forall>g\<in>set gs. g \<noteq> []"
  shows "gs \<noteq> [] \<and> hd (hd gs) = p"
  using assms by (cases gs; cases "hd gs") auto

lemma pack_loop_within:
  assumes "idx st \<le> length (parts st)"
    and "\<forall>p\<in>set (drop (idx st) (parts st)). int (tok p) \<le> mx"
    and "buf_tokens st = sum_list (map tok (buf st))"
    and "buf st = [] \<or> int (sum_list (map tok (buf st))) \<le> mx"
  shows "\<exists>st' gs. pack_loop tok mx mn st = Some st' \<and>
      chunks (flush tok st') =
        chunks st @
        map (\<lambda>(k, g). \<lparr>pk_id = k, pk_text = strip (py_join [CHR 0x0A, CHR 0x0A] g),
                        n_tokens = tok (strip (py_join [CHR 0x0A, CHR 0x0A] g)),
                        meta_structure = None\<rparr>)
            (List.enumerate (length (chunks st)) gs) \<and>
      concat gs = buf st @ drop (idx st) (parts st) \<and>
      (\<forall>g\<in>set gs. g \<noteq> [] \<and> int (sum_list (map tok g)) \<le> mx) \<and>
      (\<forall>k. Suc k < length gs \<longrightarrow>
           int (sum_list (map tok (gs ! k)) + tok (hd (gs ! Suc k))) > mx)"
  using assms
proof (induction "2 * (length (parts st) - idx st) + (if buf st = [] then 0 else 1)"
    arbitrary: st rule: less_induct)
  case less
  let ?MK = "\<lambda>(k, g). \<lparr>pk_id = k, pk_text = strip (py_join [CHR 0x0A, CHR 0x0A] g),
                        n_tokens = tok (strip (py_join [CHR 0x0A, CHR 0x0A] g)),
                        meta_structure = None\<rparr>"
  show ?case
  proof (cases "idx st < length (parts st)")
    case False
    then have d: "drop (idx st) (parts st) = []" by simp
    have l: "pack_loop tok mx mn st = Some st"
      using False by (subst pack_loop.simps) simp
    show ?thesis
    proof (cases "buf st = []")
      case True
      then have "flush tok st = st" by (simp add: flush_def)
      with l d True show ?thesis
        by (intro exI[of _ st] exI[of _ "[]"]) simp
    next
      case ne: False
      with less.prems(4) have "int (sum_list (map tok (buf st))) \<le> mx" by simp
      with l d ne show ?thesis
        by (intro exI[of _ st] exI[of _ "[buf st]"]) (simp add: flush_nonempty)
    qed
  next
    case True
    let ?p = "parts st ! idx st"
    have dr: "drop (idx st) (parts st) = ?p # drop (Suc (idx st)) (parts st)"
      using True by (simp add: Cons_nth_drop_Suc)
    then have pin: "int (tok ?p) \<le> mx"
      using less.prems(2) by simp
    have rest: "\<forall>p\<in>set (drop (Suc (idx st)) (parts st)). int (tok p) \<le> mx"
      using less.prems(2) dr by simp
    have unf: "pack_loop tok mx mn st = pack_loop tok mx mn (pack_step tok mx mn st)"
      using True by (subst pack_loop.simps) simp
    show ?thesis
    proof (cases "int (buf_tokens st + tok ?p) \<le> mx")
      case fits: True
      let ?st1 = "st\<lparr>buf := buf st @ [?p], buf_tokens := buf_tokens st + tok ?p,
                      idx := idx st + 1\<rparr>"
      have s1: "pack_step tok mx mn st = ?st1"
        using pack_step_within[of tok st mx mn, OF pin] fits by simp
      have m: "2 * (length (parts ?st1) - idx ?st1) + (if buf ?st1 = [] then 0 else 1)
            < 2 * (length (parts st) - idx st) + (if buf st = [] then 0 else 1)"
        using True by simp
      have "\<exists>st' gs. pack_loop tok mx mn ?st1 = Some st' \<and>
          chunks (flush tok st') = chunks ?st1 @ map ?MK (List.enumerate (length (chunks ?st1)) gs) \<and>
          concat gs = buf ?st1 @ drop (idx ?st1) (parts ?st1) \<and>
          (\<forall>g\<in>set gs. g \<noteq> [] \<and> int (sum_list (map tok g)) \<le> mx) \<and>
          (\<forall>k. Suc k < length gs \<longrightarrow>
               int (sum_list (map tok (gs ! k)) + tok (hd (gs ! Suc k))) > mx)"
        by (rule less.hyps[OF m]) (use True rest fits less.prems(3) in simp_all)
      then obtain st' gs where
        r: "pack_loop tok mx mn ?st1 = Some st'"
        and c: "chunks (flush tok st') = chunks st @ map ?MK (List.enumerate (length (chunks st)) gs)"
        and cc: "concat gs = (buf st @ [?p]) @ drop (Suc (idx st)) (parts st)"
        and g: "\<forall>g\<in>set gs. g \<noteq> [] \<and> int (sum_list (map tok g)) \<le> mx"
        and gr: "\<forall>k. Suc k < length gs \<longrightarrow>
               int (sum_list (map tok (gs ! k)) + tok (hd (gs ! Suc k))) > mx"
        by auto
      have "concat gs = buf st @ drop (idx st) (parts st)"
        using cc dr by simp
      with r c g gr unf s1 show ?thesis
        by (intro exI[of _ st'] exI[of _ gs]) simp
    next
      case over: False
      have ne: "buf st \<noteq> []"
      proof
        assume "buf st = []"
        with less.prems(3) have "buf_tokens st = 0" by simp
        with pin over show False by simp
      qed
      let ?c = "\<lparr>pk_id = length (chunks st),
                 pk_text = strip (py_join [CHR 0x0A, CHR 0x0A] (buf st)),
                 n_tokens = tok (strip (py_join [CHR 0x0A, CHR 0x0A] (buf st))),
                 meta_structure = None\<rparr>"
      let ?st1 = "st\<lparr>chunks := chunks st @ [?c], buf := [], buf_tokens := 0\<rparr>"
      have s1: "pack_step tok mx mn st = ?st1"
        using pack_step_within[of tok st mx mn, OF pin] over flush_nonempty[OF ne] by simp
      have m: "2 * (length (parts ?st1) - idx ?st1) + (if buf ?st1 = [] then 0 else 1)
            < 2 * (length (parts st) - idx st) + (if buf st = [] then 0 else 1)"
        using ne by simp
      have "\<exists>st' gs. pack_loop tok mx mn ?st1 = Some st' \<and>
          chunks (flush tok st') = chunks ?st1 @ map ?MK (List.enumerate (length (chunks ?st1)) gs) \<and>
          concat gs = buf ?st1 @ drop (idx ?st1) (parts ?st1) \<and>
          (\<forall>g\<in>set gs. g \<noteq> [] \<and> int (sum_list (map tok g)) \<le> mx) \<and>
          (\<forall>k. Suc k < length gs \<longrightarrow>
               int (sum_list (map tok (gs ! k)) + tok (hd (gs ! Suc k))) > mx)"
        by (rule less.hyps[OF m]) (use True less.prems(1,2) in simp_all)
      then obtain st' gs where
        r: "pack_loop tok mx mn ?st1 = Some st'"
        and c: "chunks (flush tok st') =
                  (chunks st @ [?c]) @ map ?MK (List.enumerate (Suc (length (chunks st))) gs)"
        and cc: "concat gs = drop (idx st) (parts st)"
        and g: "\<forall>g\<in>set gs. g \<noteq> [] \<and> int (sum_list (map tok g)) \<le> mx"
        and gr: "\<forall>k. Suc k < length gs \<longrightarrow>
               int (sum_list (map tok (gs ! k)) + tok (hd (gs ! Suc k))) > mx"
        by auto
      have hh: "gs \<noteq> [] \<and> hd (hd gs) = ?p"
        using concat_hd_hd[of gs ?p] cc dr g by simp
      have bsum: "int (sum_list (map tok (buf st))) \<le> mx"
        using less.prems(4) ne by simp
      have gr': "int (sum_list (map tok ((buf st # gs) ! k)) + tok (hd ((buf st # gs) ! Suc k))) > mx"
        if "Suc k < length (buf st # gs)" for k
      proof (cases k)
        case 0
        have "hd (gs ! 0) = ?p" using hh by (cases gs) auto
        with 0 over less.prems(3) show ?thesis by simp
      next
        case (Suc k')
        with that gr show ?thesis by simp
      qed
      have c': "chunks (flush tok st') =
                  chunks st @ map ?MK (List.enumerate (length (chunks st)) (buf st # gs))"
        using c by simp
      have cc': "concat (buf st # gs) = buf st @ drop (idx st) (parts st)"
        using cc by simp
      have g': "\<forall>g\<in>set (buf st # gs). g \<noteq> [] \<and> int (sum_list (map tok g)) \<le> mx"
        using g ne bsum by simp
      from r unf s1 have r': "pack_loop tok mx mn st = Some st'" by simp
      from r' c' cc' g' gr' show ?thesis
        by (intro exI[of _ st'] exI[of _ "buf st # gs"]) blast
    qed
  qed
qed

lemma squash_append: "squash (a @ b) = squash a @ squash b"
  by (simp add: squash_def)

lemma squash_dropWhile: "squash (dropWhile is_space s) = squash s"
  by (induction s) (auto simp: squash_def)

lemma squash_rev: "squash (rev s) = rev (squash s)"
  by (simp add: squash_def rev_filter)

lemma squash_strip: "squash (strip s) = squash s"
  by (simp add: strip_def squash_rev squash_dropWhile)

lemma squash_join_blank:
  "squash (py_join [CHR 0x0A, CHR 0x0A] g) = squash (concat g)"
proof (induction g)
  case Nil
  then show ?case by simp
next
  case (Cons x xs)
  then show ?case
    by (cases xs) (simp_all add: squash_append, simp add: squash_def is_space_def whitespace_chars_def)
qed

lemma squash_bodies:
  "squash (concat (map (\<lambda>g. strip (py_join [CHR 0x0A, CHR 0x0A] g)) gs)) =
   squash (concat (concat gs))"
  by (induction gs) (simp_all add: squash_append squash_strip squash_join_blank)

lemma pack_step_min_irrelevant:
  "pack_step tok mx mn st = pack_step tok mx mn' st"
  by (simp add: pack_step_def Let_def)

lemma pack_loop_min_le:
  assumes "pack_loop tok mx mn st = Some y"
  shows "pack_loop tok mx mn' st = Some y"
proof -
  have "\<forall>m. pack_loop tok mx m st = Some y"
  proof (rule pack_loop.raw_induct[where P = "\<lambda>tok mx mn st y. \<forall>m. pack_loop tok mx m st = Some y",
        OF _ assms])
    fix pl :: "(string \<Rightarrow> nat) \<Rightarrow> int \<Rightarrow> int \<Rightarrow> pack_state \<Rightarrow> pack_state option"
    fix tok mx mn st y
    assume IH: "\<And>tok mx mn st y. pl tok mx mn st = Some y \<Longrightarrow> \<forall>m. pack_loop tok mx m st = Some y"
      and eq: "(if idx st < length (parts st) then pl tok mx mn (pack_step tok mx mn st)
                else Some st) = Some y"
    show "\<forall>m. pack_loop tok mx m st = Some y"
    proof
      fix m
      show "pack_loop tok mx m st = Some y"
      proof (cases "idx st < length (parts st)")
        case True
        with eq have "pl tok mx mn (pack_step tok mx mn st) = Some y" by simp
        from IH[OF this] have "pack_loop tok mx m (pack_step tok mx mn st) = Some y"
          by simp
        then have "pack_loop tok mx m (pack_step tok mx m st) = Some y"
          using pack_step_min_irrelevant[of tok mx mn st m] by simp
        with True show ?thesis by (subst pack_loop.simps) simp
      next
        case False
        with eq have "y = st" by simp
        with False show ?thesis by (subst pack_loop.simps) simp
      qed
    qed
  qed
  then show ?thesis by simp
qed

lemma pack_min_irrelevant: "pack tok mx mn ps = pack tok mx mn' ps"
proof -
  let ?s = "\<lparr>parts = ps, idx = 0, buf = [], buf_tokens = 0, chunks = []\<rparr>"
  have "pack_loop tok mx mn ?s = pack_loop tok mx mn' ?s"
  proof (cases "pack_loop tok mx mn ?s")
    case None
    show ?thesis
    proof (cases "pack_loop tok mx mn' ?s")
      case None
      with \<open>pack_loop tok mx mn ?s = None\<close> show ?thesis by simp
    next
      case (Some y)
      from pack_loop_min_le[OF this, of mn] None show ?thesis by simp
    qed
  next
    case (Some y)
    from pack_loop_min_le[OF this, of mn'] Some show ?thesis by simp
  qed
  then show ?thesis by (simp add: pack_def)
qed

lemma pack_within:
  assumes "\<forall>p\<in>set ps. int (tok p) \<le> mx"
  shows "\<exists>gs. pack tok mx mn ps =
           Some (map (\<lambda>(k, g). \<lparr>pk_id = k, pk_text = strip (py_join [CHR 0x0A, CHR 0x0A] g),
                        n_tokens = tok (strip (py_join [CHR 0x0A, CHR 0x0A] g)),
                        meta_structure = None\<rparr>)
                  (List.enumerate 0 gs)) \<and>
      concat gs = ps \<and>
      (\<forall>g\<in>set gs. g \<noteq> [] \<and> int (sum_list (map tok g)) \<le> mx) \<and>
      (\<forall>k. Suc k < length gs \<longrightarrow>
           int (sum_list (map tok (gs ! k)) + tok (hd (gs ! Suc k))) > mx)"
proof -
  let ?s = "\<lparr>parts = ps, idx = 0, buf = [], buf_tokens = 0, chunks = []\<rparr>"
  have "\<exists>st' gs. pack_loop tok mx mn ?s = Some st' \<and>
      chunks (flush tok st') =
        chunks ?s @
        map (\<lambda>(k, g). \<lparr>pk_id = k, pk_text = strip (py_join [CHR 0x0A, CHR 0x0A] g),
                        n_tokens = tok (strip (py_join [CHR 0x0A, CHR 0x0A] g)),
                        meta_structure = None\<rparr>)
            (List.enumerate (length (chunks ?s)) gs) \<and>
      concat gs = buf ?s @ drop (idx ?s) (parts ?s) \<and>
      (\<forall>g\<in>set gs. g \<noteq> [] \<and> int (sum_list (map tok g)) \<le> mx) \<and>
      (\<forall>k. Suc k < length gs \<longrightarrow>
           int (sum_list (map tok (gs ! k)) + tok (hd (gs ! Suc k))) > mx)"
    by (rule pack_loop_within) (use assms in simp_all)
  then obtain st' gs where "pack_loop tok mx mn ?s = Some st'"
    "chunks (flush tok st') =
        map (\<lambda>(k, g). \<lparr>pk_id = k, pk_text = strip (py_join [CHR 0x0A, CHR 0x0A] g),
                        n_tokens = tok (strip (py_join [CHR 0x0A, CHR 0x0A] g)),
                        meta_structure = None\<rparr>)
            (List.enumerate 0 gs)"
    "concat gs = ps"
    "\<forall>g\<in>set gs. g \<noteq> [] \<and> int (sum_list (map tok g)) \<le> mx"
    "\<forall>k. Suc k < length gs \<longrightarrow>
           int (sum_list (map tok (gs ! k)) + tok (hd (gs ! Suc k))) > mx"
    by auto
  then show ?thesis
    by (intro exI[of _ gs]) (simp add: pack_def)
qed

lemma enumerate_map_nth:
  "k < length gs \<Longrightarrow> map f (List.enumerate n gs) ! k = f (n + k, gs ! k)"
  by (simp add: nth_enumerate_eq)


text \<open>The definitions unfolded to evaluate the packer on concrete pieces.\<close>

lemmas pack_eval_defs = pack_def pack_loop.simps pack_step_def flush_def Let_def heuristic_count_def
  strip_def is_space_def whitespace_chars_def list_insert_def hard_cut_def py_split_def


section \<open>The splitters keep the content\<close>

lemma squash_Nil [simp]: "squash [] = []"
  by (simp add: squash_def)

lemma squash_blank_piece: "strip p = [] \<Longrightarrow> squash p = []"
  using squash_strip[of p] by simp

lemma squash_filter_blank:
  "squash (concat (filter (\<lambda>p. strip p \<noteq> []) ps)) = squash (concat ps)"
  by (induction ps) (simp_all add: squash_append squash_blank_piece)

lemma squash_dropWhile_spaces:
  "(\<And>x. P x \<Longrightarrow> is_space x) \<Longrightarrow> squash (dropWhile P s) = squash s"
  by (induction s) (auto simp: squash_def)

lemma squash_para_split: "squash (concat (para_split cur s)) = squash (cur @ s)"
proof (induction cur s rule: para_split.induct)
  case (1 cur)
  then show ?case by (simp add: para_split.simps)
next
  case (2 cur c cs)
  show ?case
  proof (cases "c = CHR 0x0A \<and> cs \<noteq> [] \<and> hd cs = CHR 0x0A")
    case True
    have "squash (dropWhile (\<lambda>x. x = CHR 0x0A) cs) = squash cs"
      by (rule squash_dropWhile_spaces) simp
    moreover have "squash [c] = []" using True by (simp add: squash_def)
    ultimately show ?thesis
      using True 2(1) squash_append[of "[c]" cs]
      by (simp add: para_split.simps squash_append)
  next
    case False
    then have "para_split cur (c # cs) = para_split (cur @ [c]) cs"
      by (subst para_split.simps) auto
    with False 2(2) show ?thesis by simp
  qed
qed

lemma squash_split_by_paragraph: "squash (concat (split_by_paragraph s)) = squash s"
  by (simp add: split_by_paragraph_def squash_filter_blank squash_para_split squash_strip)

lemma concat_heading_split: "concat (heading_split bol cur s) = cur @ s"
  by (induction s arbitrary: bol cur) simp_all

lemma squash_split_by_markdown_headings:
  "squash (concat (split_by_markdown_headings s)) = squash s"
  by (simp add: split_by_markdown_headings_def squash_filter_blank concat_heading_split
      squash_strip)

lemma squash_sent_re_split: "squash (concat (sent_re_split cur s)) = squash (cur @ s)"
proof (induction cur s rule: sent_re_split.induct)
  case (1 cur)
  then show ?case by (simp add: sent_re_split.simps)
next
  case (2 cur c cs)
  show ?case
  proof (cases "is_space c \<and> sent_lookbehind cur \<and> sent_lookahead (dropWhile is_space cs)")
    case True
    have "squash (dropWhile is_space cs) = squash cs"
      by (rule squash_dropWhile)
    moreover have "squash [c] = []" using True by (simp add: squash_def)
    ultimately show ?thesis
      using True 2(1) squash_append[of "[c]" cs]
      by (simp add: sent_re_split.simps squash_append)
  next
    case False
    then have "sent_re_split cur (c # cs) = sent_re_split (cur @ [c]) cs"
      by (subst sent_re_split.simps) auto
    with False 2(2) show ?thesis by simp
  qed
qed

lemma fence_match_le:
  "fence_match s = Some (a, e) \<Longrightarrow> a \<le> e"
  by (auto simp: fence_match_def Let_def split: if_splits)

lemma take_mid_drop:
  assumes "a \<le> e"
  shows "take a s @ take (e - a) (drop a s) @ drop e s = s"
proof -
  have "take (e - a) (drop a s) @ drop (e - a) (drop a s) = drop a s"
    by (rule append_take_drop_id)
  moreover have "drop (e - a) (drop a s) = drop e s"
    using assms by simp
  ultimately show ?thesis
    by (metis append_take_drop_id)
qed

lemma squash_sentence_blocks: "squash (concat (sentence_blocks s)) = squash s"
proof (induction s rule: sentence_blocks.induct)
  case (1 s)
  show ?case
  proof (cases "fence_match s")
    case None
    then show ?thesis
      by (subst sentence_blocks.simps) (simp add: squash_sent_re_split squash_strip)
  next
    case (Some x)
    obtain a e where x: "x = (a, e)" by (cases x)
    have IH: "squash (concat (sentence_blocks (drop e s))) = squash (drop e s)"
      using 1[OF Some x[symmetric]] .
    have b: "squash (concat (if take a s \<noteq> [] then sent_re_split [] (strip (take a s)) else []))
             = squash (take a s)"
      by (simp add: squash_sent_re_split squash_strip)
    have "squash (concat (sentence_blocks s)) =
          squash (take a s) @ squash (take (e - a) (drop a s)) @ squash (drop e s)"
      using Some x IH b
      by (subst sentence_blocks.simps) (simp add: squash_append)
    also have "\<dots> = squash (take a s @ take (e - a) (drop a s) @ drop e s)"
      by (simp add: squash_append)
    also have "\<dots> = squash s"
    proof -
      have "a \<le> e" using fence_match_le Some x by simp
      from take_mid_drop[OF this, of s] show ?thesis by (simp only:)
    qed
    finally show ?thesis .
  qed
qed

lemma squash_filter_nonempty_strip:
  "squash (concat (filter (\<lambda>b. b \<noteq> []) (map strip bs))) = squash (concat bs)"
  by (induction bs) (simp_all add: squash_append squash_strip squash_blank_piece)

lemma squash_split_sentences: "squash (concat (split_sentences s)) = squash s"
  by (simp add: split_sentences_def squash_filter_nonempty_strip squash_sentence_blocks)

lemma squash_split_ws: "squash (concat (split_ws cur s)) = squash (cur @ s)"
  by (induction s arbitrary: cur) (auto simp: squash_append squash_def)

lemma squash_join_space: "squash (py_join '' '' g) = squash (concat g)"
proof (induction g)
  case Nil
  then show ?case by simp
next
  case (Cons x xs)
  then show ?case
    by (cases xs) (simp_all add: squash_append, simp add: squash_def)
qed

lemma squash_hard_cut: "squash (concat (hard_cut tok mx s)) = squash s"
proof -
  obtain gs where h: "hard_cut tok mx s = map (\<lambda>g. strip (py_join '' '' g)) gs"
    and c: "concat gs = py_split s"
    using hard_cut_groups by blast
  have "squash (concat (map (\<lambda>g. strip (py_join '' '' g)) gs)) = squash (concat (concat gs))"
    by (induction gs) (simp_all add: squash_append squash_strip squash_join_space)
  with h c show ?thesis
    using squash_split_ws[of "[]" s] by (simp add: py_split_def)
qed

lemma squash_split_with_rules:
  assumes "\<forall>r\<in>set rules. \<forall>s. squash (concat (r s)) = squash s"
  shows "squash (concat (split_with_rules tok mx s rules)) = squash s"
  using assms
proof (induction rules arbitrary: s)
  case Nil
  then show ?case by (simp add: squash_hard_cut)
next
  case (Cons r rules)
  have IH: "squash (concat (split_with_rules tok mx p rules)) = squash p" for p
    using Cons by simp
  have r: "squash (concat (r s)) = squash s" using Cons.prems by simp
  have m: "squash (concat (concat (map (\<lambda>p. if too_big tok mx p
                             then split_with_rules tok mx p rules else [p]) ps))) =
           squash (concat ps)" for ps
    by (induction ps) (simp_all add: squash_append IH)
  show ?case
    using IH r m[of "r s"] by (simp add: Let_def)
qed

lemma squash_splitters_for:
  assumes "structure \<noteq> ''code''"
  shows "\<forall>r\<in>set (splitters_for structure). \<forall>s. squash (concat (r s)) = squash s"
  using assms
  by (simp add: splitters_for_def split_by_sentence_def squash_split_by_paragraph
      squash_split_by_markdown_headings squash_split_sentences)

text \<open>
  Under the \<open>code\<close> profile the first splitter returns every keyword it splits at
  twice, once as a piece of its own, so the pieces do not reconstruct the text.
\<close>

lemma split_by_code_symbols_repeats_keyword:
  "split_by_code_symbols (''x = 1'' @ [CHR 0x0A] @ ''def f(): pass'') =
     [''x = 1'' @ [CHR 0x0A], ''def '', ''def f(): pass'']"
  by (simp add: split_by_code_symbols_def code_keyword_at_def code_keywords_def startswith_def
      strip_def is_space_def whitespace_chars_def)

text \<open>The definitions unfolded to evaluate the decomposition of a concrete document.\<close>

lemmas splitter_eval_defs = splitters_for_def split_by_markdown_headings_def
  split_by_paragraph_def split_by_sentence_def split_sentences_def heading_at_def
  para_split.simps sentence_blocks.simps sent_re_split.simps fence_match_def py_find_def
  sent_lookbehind_def sent_lookahead_def too_big_def heuristic_count_def strip_def is_space_def
  whitespace_chars_def Let_def

lemma pack_covers:
  assumes "\<forall>p\<in>set ps. int (tok p) \<le> max_tokens"
  shows "\<exists>cs gs. pack tok max_tokens min_tokens ps = Some cs \<and>
         concat gs = ps \<and> (\<forall>g\<in>set gs. g \<noteq> []) \<and>
         map pk_text cs = map (\<lambda>g. strip (py_join [CHR 0x0A, CHR 0x0A] g)) gs \<and>
         map pk_id cs = [0..<length cs] \<and>
         squash (concat (map pk_text cs)) = squash (concat ps)"
proof -
  let ?MK = "\<lambda>(k, g). \<lparr>pk_id = k, pk_text = strip (py_join [CHR 0x0A, CHR 0x0A] g),
                        n_tokens = tok (strip (py_join [CHR 0x0A, CHR 0x0A] g)),
                        meta_structure = None\<rparr>"
  from pack_within[OF assms, of min_tokens] obtain gs where
    p: "pack tok max_tokens min_tokens ps = Some (map ?MK (List.enumerate 0 gs))"
    and c: "concat gs = ps"
    and g: "\<forall>g\<in>set gs. g \<noteq> [] \<and> int (sum_list (map tok g)) \<le> max_tokens"
    by blast
  let ?cs = "map ?MK (List.enumerate 0 gs)"
  have t: "map pk_text (map ?MK (List.enumerate n gs)) =
           map (\<lambda>g. strip (py_join [CHR 0x0A, CHR 0x0A] g)) gs" for n
    by (induction gs arbitrary: n) simp_all
  have i: "map pk_id (map ?MK (List.enumerate n gs)) = [n..<n + length gs]" for n
    by (induction gs arbitrary: n) (simp_all add: upt_rec)
  have s: "squash (concat (map pk_text ?cs)) = squash (concat ps)"
    unfolding t using squash_bodies[of gs] c by simp
  from p c g t[of 0] i[of 0] s show ?thesis
    by (intro exI[of _ ?cs] exI[of _ gs]) simp
qed

section \<open>Claims about the greedy packer\<close>



text \<open>
  C2, as amended. When every piece is within \<open>max_tokens\<close>, the packer returns, and
  its chunks are the stripped blank-line joins of consecutive non-empty groups of the
  pieces. The running token total of every group (the sum of its pieces' token counts)
  is at most \<open>max_tokens\<close>, and a group other than the last is closed because the next
  piece would take the total over \<open>max_tokens\<close>. The reported \<open>n_tokens\<close> is the
  token count of the joined text. \<open>min_tokens\<close> has no effect on the result, so a
  chunk may be below it wherever it stands.
\<close>

theorem running_total_within_budget:
  assumes "\<forall>p\<in>set ps. int (tok p) \<le> max_tokens"
  shows "\<exists>cs gs. pack tok max_tokens min_tokens ps = Some cs \<and>
           pack tok max_tokens min_tokens' ps = Some cs \<and>
           concat gs = ps \<and> length cs = length gs \<and>
           (\<forall>k<length gs.
              gs ! k \<noteq> [] \<and>
              pk_text (cs ! k) = strip (py_join [CHR 0x0A, CHR 0x0A] (gs ! k)) \<and>
              n_tokens (cs ! k) = tok (pk_text (cs ! k)) \<and>
              int (sum_list (map tok (gs ! k))) \<le> max_tokens \<and>
              (Suc k < length gs \<longrightarrow>
                 int (sum_list (map tok (gs ! k)) + tok (hd (gs ! Suc k))) > max_tokens))"
proof -
  let ?MK = "\<lambda>(k, g). \<lparr>pk_id = k, pk_text = strip (py_join [CHR 0x0A, CHR 0x0A] g),
                        n_tokens = tok (strip (py_join [CHR 0x0A, CHR 0x0A] g)),
                        meta_structure = None\<rparr>"
  from pack_within[OF assms, of min_tokens] obtain gs where
    p: "pack tok max_tokens min_tokens ps = Some (map ?MK (List.enumerate 0 gs))"
    and c: "concat gs = ps"
    and g: "\<forall>g\<in>set gs. g \<noteq> [] \<and> int (sum_list (map tok g)) \<le> max_tokens"
    and gr: "\<forall>k. Suc k < length gs \<longrightarrow>
           int (sum_list (map tok (gs ! k)) + tok (hd (gs ! Suc k))) > max_tokens"
    by blast
  let ?cs = "map ?MK (List.enumerate 0 gs)"
  have p': "pack tok max_tokens min_tokens' ps = Some ?cs"
    using p pack_min_irrelevant[of tok max_tokens min_tokens ps min_tokens'] by simp
  have nth: "?cs ! k = ?MK (k, gs ! k)" if "k < length gs" for k
    using enumerate_map_nth[OF that, of ?MK 0] by simp
  have "gs ! k \<noteq> [] \<and>
        pk_text (?cs ! k) = strip (py_join [CHR 0x0A, CHR 0x0A] (gs ! k)) \<and>
        n_tokens (?cs ! k) = tok (pk_text (?cs ! k)) \<and>
        int (sum_list (map tok (gs ! k))) \<le> max_tokens \<and>
        (Suc k < length gs \<longrightarrow>
           int (sum_list (map tok (gs ! k)) + tok (hd (gs ! Suc k))) > max_tokens)"
    if k: "k < length gs" for k
  proof -
    have "gs ! k \<in> set gs" using k by simp
    with g have "gs ! k \<noteq> []" "int (sum_list (map tok (gs ! k))) \<le> max_tokens" by auto
    with nth[OF k] gr show ?thesis by simp
  qed
  with p p' c show ?thesis
    by (intro exI[of _ ?cs] exI[of _ gs]) simp
qed

text \<open>
  C2 as stated fails on both bounds. With a budget of 10 and a minimum of 5 the first
  chunk of \<open>["aaaa", 40 * "b"]\<close> has 1 token and is not the last. With a budget
  of 2 the first chunk of three pieces of 1 token each joins two of them into a text of
  4 tokens.
\<close>

theorem chunk_below_min_counterexample:
  "pack heuristic_count 10 5 [''aaaa'', replicate 40 CHR ''b''] =
     Some [\<lparr>pk_id = 0, pk_text = ''aaaa'', n_tokens = 1, meta_structure = None\<rparr>,
           \<lparr>pk_id = 1, pk_text = replicate 40 CHR ''b'', n_tokens = 10, meta_structure = None\<rparr>] \<and>
   pack heuristic_count 2 1 [''aaaaaaa'', ''bbbbbbb'', ''ccccccc''] =
     Some [\<lparr>pk_id = 0, pk_text = ''aaaaaaa'' @ [CHR 0x0A, CHR 0x0A] @ ''bbbbbbb'', n_tokens = 4,
            meta_structure = None\<rparr>,
           \<lparr>pk_id = 1, pk_text = ''ccccccc'', n_tokens = 1, meta_structure = None\<rparr>]"
  by (simp add: pack_eval_defs)

text \<open>Three pieces of 2, 2 and 4 tokens under a budget of 5.\<close>

theorem running_total_within_budget_witness:
  "pack heuristic_count 5 3 [''alpha beta'', ''gamma delta'', ''epsilon zeta eta''] =
     Some [\<lparr>pk_id = 0, pk_text = ''alpha beta'' @ [CHR 0x0A, CHR 0x0A] @ ''gamma delta'',
            n_tokens = 5, meta_structure = None\<rparr>,
           \<lparr>pk_id = 1, pk_text = ''epsilon zeta eta'', n_tokens = 4, meta_structure = None\<rparr>] \<and>
   (\<exists>cs gs. pack heuristic_count 5 3 [''alpha beta'', ''gamma delta'', ''epsilon zeta eta''] = Some cs \<and>
           pack heuristic_count 5 0 [''alpha beta'', ''gamma delta'', ''epsilon zeta eta''] = Some cs \<and>
           concat gs = [''alpha beta'', ''gamma delta'', ''epsilon zeta eta''] \<and>
           length cs = length gs \<and>
           (\<forall>k<length gs.
              gs ! k \<noteq> [] \<and>
              pk_text (cs ! k) = strip (py_join [CHR 0x0A, CHR 0x0A] (gs ! k)) \<and>
              n_tokens (cs ! k) = heuristic_count (pk_text (cs ! k)) \<and>
              int (sum_list (map heuristic_count (gs ! k))) \<le> 5 \<and>
              (Suc k < length gs \<longrightarrow>
                 int (sum_list (map heuristic_count (gs ! k)) + heuristic_count (hd (gs ! Suc k)))
                   > 5)))"
proof -
  have h: "\<forall>p\<in>set [''alpha beta'', ''gamma delta'', ''epsilon zeta eta''].
             int (heuristic_count p) \<le> 5"
    by (simp add: heuristic_count_def)
  have e: "pack heuristic_count 5 3 [''alpha beta'', ''gamma delta'', ''epsilon zeta eta''] =
     Some [\<lparr>pk_id = 0, pk_text = ''alpha beta'' @ [CHR 0x0A, CHR 0x0A] @ ''gamma delta'',
            n_tokens = 5, meta_structure = None\<rparr>,
           \<lparr>pk_id = 1, pk_text = ''epsilon zeta eta'', n_tokens = 4, meta_structure = None\<rparr>]"
    by (simp add: pack_eval_defs)
  from running_total_within_budget[OF h, of 3 0] e show ?thesis
    by blast
qed

text \<open>
  C1, as amended. In \<open>adaptive_chunk\<close> under the \<open>markdown\<close> or \<open>plain\<close> profile,
  for every document whose decomposition yields only pieces within \<open>max_tokens\<close>, the
  packer returns, every piece produced by the decomposition appears in exactly one
  chunk, in input order (the chunk texts before overlap are the stripped blank-line joins
  of consecutive non-empty groups that partition the piece list, numbered from 0), and
  the concatenation of the chunk texts before overlap reconstructs the document's content
  modulo whitespace. For any list of pieces within \<open>max_tokens\<close> the packer returns
  and covers the pieces in the same way. In \<open>chunk_content_with_langchain\<close> content
  is dropped by design: the chunks emitted are the splitter's chunks whose cleaned text
  has at least \<open>MIN_CHUNK_TOKENS\<close> tokens, in order.
\<close>

theorem coverage_by_design:
  "(structure \<noteq> ''code'' \<and>
    (\<forall>p\<in>set (split_with_rules tok max_tokens doc (splitters_for structure)).
        int (tok p) \<le> max_tokens) \<longrightarrow>
      (\<exists>cs gs.
         pack tok max_tokens min_tokens
           (split_with_rules tok max_tokens doc (splitters_for structure)) = Some cs \<and>
         concat gs = split_with_rules tok max_tokens doc (splitters_for structure) \<and>
         (\<forall>g\<in>set gs. g \<noteq> []) \<and>
         map pk_text cs = map (\<lambda>g. strip (py_join [CHR 0x0A, CHR 0x0A] g)) gs \<and>
         map pk_id cs = [0..<length cs] \<and>
         squash (concat (map pk_text cs)) = squash doc \<and>
         adaptive_chunk tok doc max_tokens min_tokens overlap_sentences structure =
           Some (map (\<lambda>c. c\<lparr>meta_structure := Some structure\<rparr>)
                   (add_overlap tok overlap_sentences cs)))) \<and>
   ((\<forall>p\<in>set ps. int (tok p) \<le> max_tokens) \<longrightarrow>
      (\<exists>cs gs. pack tok max_tokens min_tokens ps = Some cs \<and>
         concat gs = ps \<and> (\<forall>g\<in>set gs. g \<noteq> []) \<and>
         map pk_text cs = map (\<lambda>g. strip (py_join [CHR 0x0A, CHR 0x0A] g)) gs \<and>
         map pk_id cs = [0..<length cs] \<and>
         squash (concat (map pk_text cs)) = squash (concat ps))) \<and>
   (chunk_content_with_langchain E content md = Inr out \<longrightarrow>
      map display_markdown out =
        map (\<lambda>t. if t = [] then clean_markdown_text E t else t)
          (filter (\<lambda>t. \<not> count_tokens E (clean_markdown_text E t) < MIN_CHUNK_TOKENS)
             (split_text E content)))"
proof (intro conjI impI)
  let ?ps = "split_with_rules tok max_tokens doc (splitters_for structure)"
  assume a: "structure \<noteq> ''code'' \<and> (\<forall>p\<in>set ?ps. int (tok p) \<le> max_tokens)"
  then have w: "\<forall>p\<in>set ?ps. int (tok p) \<le> max_tokens" by simp
  from pack_covers[OF w, of min_tokens] obtain cs gs where
    p: "pack tok max_tokens min_tokens ?ps = Some cs"
    and r: "concat gs = ?ps" "\<forall>g\<in>set gs. g \<noteq> []"
      "map pk_text cs = map (\<lambda>g. strip (py_join [CHR 0x0A, CHR 0x0A] g)) gs"
      "map pk_id cs = [0..<length cs]"
    and s: "squash (concat (map pk_text cs)) = squash (concat ?ps)"
    by blast
  have "squash (concat ?ps) = squash doc"
    using a squash_split_with_rules[OF squash_splitters_for] by simp
  with s have s': "squash (concat (map pk_text cs)) = squash doc" by simp
  have ad: "adaptive_chunk tok doc max_tokens min_tokens overlap_sentences structure =
           Some (map (\<lambda>c. c\<lparr>meta_structure := Some structure\<rparr>)
                   (add_overlap tok overlap_sentences cs))"
    using p by (simp add: adaptive_chunk_def)
  from p r s' ad
  show "\<exists>cs gs.
         pack tok max_tokens min_tokens ?ps = Some cs \<and>
         concat gs = ?ps \<and>
         (\<forall>g\<in>set gs. g \<noteq> []) \<and>
         map pk_text cs = map (\<lambda>g. strip (py_join [CHR 0x0A, CHR 0x0A] g)) gs \<and>
         map pk_id cs = [0..<length cs] \<and>
         squash (concat (map pk_text cs)) = squash doc \<and>
         adaptive_chunk tok doc max_tokens min_tokens overlap_sentences structure =
           Some (map (\<lambda>c. c\<lparr>meta_structure := Some structure\<rparr>)
                   (add_overlap tok overlap_sentences cs))"
    by blast
next
  assume "\<forall>p\<in>set ps. int (tok p) \<le> max_tokens"
  from pack_covers[OF this]
  show "\<exists>cs gs. pack tok max_tokens min_tokens ps = Some cs \<and>
         concat gs = ps \<and> (\<forall>g\<in>set gs. g \<noteq> []) \<and>
         map pk_text cs = map (\<lambda>g. strip (py_join [CHR 0x0A, CHR 0x0A] g)) gs \<and>
         map pk_id cs = [0..<length cs] \<and>
         squash (concat (map pk_text cs)) = squash (concat ps)" .
next
  assume "chunk_content_with_langchain E content md = Inr out"
  from emitted_chunks_display[OF this]
  show "map display_markdown out =
        map (\<lambda>t. if t = [] then clean_markdown_text E t else t)
          (filter (\<lambda>t. \<not> count_tokens E (clean_markdown_text E t) < MIN_CHUNK_TOKENS)
             (split_text E content))"
    by simp
qed

text \<open>
  A markdown document decomposed into five pieces under a budget of 4, the three pieces
  of a two-line program under the \<open>code\<close> profile, and a document whose splitter
  chunks are one of 51 tokens and one of 3 tokens.
\<close>

theorem coverage_by_design_witness:
  "split_with_rules heuristic_count 4
     (''# Title'' @ [CHR 0x0A, CHR 0x0A] @ ''Short intro.'' @ [CHR 0x0A, CHR 0x0A] @
      ''## A'' @ [CHR 0x0A] @ ''One. Two. Three.'')
     (splitters_for ''markdown'') =
     [''# Title'', ''Short intro.'', ''## A'' @ [CHR 0x0A] @ ''One.'', ''Two.'', ''Three.''] \<and>
   pack heuristic_count 4 2
     [''# Title'', ''Short intro.'', ''## A'' @ [CHR 0x0A] @ ''One.'', ''Two.'', ''Three.''] =
     Some [\<lparr>pk_id = 0, pk_text = ''# Title'' @ [CHR 0x0A, CHR 0x0A] @ ''Short intro.'',
            n_tokens = 5, meta_structure = None\<rparr>,
           \<lparr>pk_id = 1,
            pk_text = ''## A'' @ [CHR 0x0A] @ ''One.'' @ [CHR 0x0A, CHR 0x0A] @ ''Two.'' @
                      [CHR 0x0A, CHR 0x0A] @ ''Three.'',
            n_tokens = 5, meta_structure = None\<rparr>] \<and>
   squash (''# Title'' @ [CHR 0x0A, CHR 0x0A] @ ''Short intro.'' @
           ''## A'' @ [CHR 0x0A] @ ''One.'' @ [CHR 0x0A, CHR 0x0A] @ ''Two.'' @
             [CHR 0x0A, CHR 0x0A] @ ''Three.'') =
     squash (''# Title'' @ [CHR 0x0A, CHR 0x0A] @ ''Short intro.'' @ [CHR 0x0A, CHR 0x0A] @
             ''## A'' @ [CHR 0x0A] @ ''One. Two. Three.'') \<and>
   pack heuristic_count 4 2 [''x = 1'' @ [CHR 0x0A], ''def '', ''def f(): pass''] =
     Some [\<lparr>pk_id = 0, pk_text = ''x = 1'' @ [CHR 0x0A, CHR 0x0A, CHR 0x0A] @ ''def'',
            n_tokens = 2, meta_structure = None\<rparr>,
           \<lparr>pk_id = 1, pk_text = ''def f(): pass'', n_tokens = 3, meta_structure = None\<rparr>] \<and>
   squash (''x = 1'' @ [CHR 0x0A, CHR 0x0A, CHR 0x0A] @ ''def'' @ ''def f(): pass'') =
     squash (''x = 1'' @ [CHR 0x0A] @ ''def '' @ ''def f(): pass'') \<and>
   map display_markdown
     (projr (chunk_content_with_langchain
       \<lparr>clean_markdown_text = (\<lambda>s. s), extract_markdown_links = (\<lambda>s. []),
        get_chunk_header_context =
          (\<lambda>full c. \<lparr>hc_header_path = None, hc_header_hierarchy = None\<rparr>),
        count_tokens = count_tokens_fallback,
        split_text = (\<lambda>s. [replicate 204 CHR ''x'', ''See you soon.'']),
        sha256_hexdigest = (\<lambda>s. [])\<rparr>
       (replicate 204 CHR ''x'' @ [CHR 0x0A] @ ''See you soon.'')
       \<lparr>md_title = Some ''T'', md_date = Some ''2024-01-01'', md_slug = Some ''s'',
        md_tags = Some [], md_source_url = Some ''u'', md_post_path = Some ''p'',
        md_original_file_sha256 = None, md_images = []\<rparr>)) =
   [replicate 204 CHR ''x'']"
  (is "split_with_rules _ _ ?doc _ = ?ps \<and> ?A \<and> ?B \<and> ?C \<and> ?D \<and> map _ (projr ?F) = _")
proof -
  have d: "split_with_rules heuristic_count 4 ?doc (splitters_for ''markdown'') = ?ps"
    by (simp add: splitter_eval_defs)
  have h: "''markdown'' \<noteq> ''code'' \<and>
      (\<forall>p\<in>set (split_with_rules heuristic_count 4 ?doc (splitters_for ''markdown'')).
             int (heuristic_count p) \<le> 4)"
    unfolding d by (simp add: heuristic_count_def)
  have e: ?A
    by (simp add: pack_eval_defs)
  have f: "?F = Inr (projr ?F)"
    by (simp add: eval_defs)
  have h2: "\<forall>p\<in>set [''x = 1'' @ [CHR 0x0A], ''def '', ''def f(): pass''].
              int (heuristic_count p) \<le> 4"
    by (simp add: heuristic_count_def)
  have e2: ?C
    by (simp add: pack_eval_defs)
  note t = coverage_by_design[of "''markdown''" heuristic_count 4 ?doc 2 1
      "[''x = 1'' @ [CHR 0x0A], ''def '', ''def f(): pass'']" _ _ _ "projr ?F"]
  from t[THEN conjunct2, THEN conjunct1, THEN mp, OF h2] have b2: ?D
    unfolding e2 by auto
  from t[THEN conjunct1, THEN mp, OF h] have b: ?B
    unfolding d e by auto
  from t[THEN conjunct2, THEN conjunct2, THEN mp, OF f]
  have c: "map display_markdown (projr ?F) = [replicate 204 CHR ''x'']"
    by (simp add: count_tokens_fallback_def MIN_CHUNK_TOKENS_def)
  from d e b e2 b2 c show ?thesis by blast
qed

text \<open>
  C1 as stated fails: a document that the splitter returns as one chunk of 38
  characters (9 tokens) produces no chunk at all, so all of its content is dropped.
\<close>

theorem whole_document_dropped_counterexample:
  "chunk_content_with_langchain
       \<lparr>clean_markdown_text = (\<lambda>s. s), extract_markdown_links = (\<lambda>s. []),
        get_chunk_header_context =
          (\<lambda>full c. \<lparr>hc_header_path = None, hc_header_hierarchy = None\<rparr>),
        count_tokens = count_tokens_fallback,
        split_text = (\<lambda>s. [s]),
        sha256_hexdigest = (\<lambda>s. [])\<rparr>
       (''# Note'' @ [CHR 0x0A, CHR 0x0A] @ ''A short post of one paragraph.'')
       \<lparr>md_title = Some ''T'', md_date = Some ''2024-01-01'', md_slug = Some ''s'',
        md_tags = Some [], md_source_url = Some ''u'', md_post_path = Some ''p'',
        md_original_file_sha256 = None, md_images = []\<rparr> =
   Inr []"
  by (simp add: eval_defs)

section \<open>The sentence overlap\<close>

lemma overlap_step_length [simp]: "length (overlap_step tok k j cs) = length cs"
  by (simp add: overlap_step_def Let_def)

lemma overlap_fold:
  assumes "n \<le> length cs"
  shows "length (fold (overlap_step tok k) [1..<n] cs) = length cs \<and>
    (\<forall>j<length cs.
       ((j = 0 \<or> n \<le> j) \<longrightarrow> fold (overlap_step tok k) [1..<n] cs ! j = cs ! j) \<and>
       ((0 < j \<and> j < n) \<longrightarrow>
          fold (overlap_step tok k) [1..<n] cs ! j =
            (cs ! j)\<lparr>pk_text :=
                strip (py_join '' ''
                         (last_n k (split_sentences
                            (pk_text (fold (overlap_step tok k) [1..<n] cs ! (j - 1))))) @
                       '' '' @ pk_text (cs ! j)),
              n_tokens :=
                tok (strip (py_join '' ''
                         (last_n k (split_sentences
                            (pk_text (fold (overlap_step tok k) [1..<n] cs ! (j - 1))))) @
                       '' '' @ pk_text (cs ! j)))\<rparr>))"
  using assms
proof (induction n)
  case 0
  then show ?case by simp
next
  case (Suc n)
  show ?case
  proof (cases "n = 0")
    case True
    then show ?thesis by simp
  next
    case False
    let ?r = "fold (overlap_step tok k) [1..<n] cs"
    let ?r' = "fold (overlap_step tok k) [1..<Suc n] cs"
    from Suc.prems have nle: "n \<le> length cs" and nlt: "n < length cs" by simp_all
    note IH = Suc.IH[OF nle]
    have len: "length ?r = length cs" using IH by simp
    have keep: "?r ! j = cs ! j" if "j < length cs" "j = 0 \<or> n \<le> j" for j
      using IH that by blast
    have r': "?r' = overlap_step tok k n ?r"
      using False by simp
    have rn: "?r ! n = cs ! n" using keep[of n] nlt by simp
    have upd: "?r' = ?r[n := (cs ! n)\<lparr>pk_text :=
                strip (py_join '' '' (last_n k (split_sentences (pk_text (?r ! (n - 1))))) @
                       '' '' @ pk_text (cs ! n)),
              n_tokens :=
                tok (strip (py_join '' '' (last_n k (split_sentences (pk_text (?r ! (n - 1))))) @
                       '' '' @ pk_text (cs ! n)))\<rparr>]"
      unfolding r' overlap_step_def Let_def rn by (rule refl)
    have other: "?r' ! j = ?r ! j" if "j \<noteq> n" for j
      unfolding upd using that by simp
    have at_n: "?r' ! n = (cs ! n)\<lparr>pk_text :=
                strip (py_join '' '' (last_n k (split_sentences (pk_text (?r ! (n - 1))))) @
                       '' '' @ pk_text (cs ! n)),
              n_tokens :=
                tok (strip (py_join '' '' (last_n k (split_sentences (pk_text (?r ! (n - 1))))) @
                       '' '' @ pk_text (cs ! n)))\<rparr>"
      unfolding upd using nlt len by simp
    have len': "length ?r' = length cs" unfolding upd using len by simp
    have "((j = 0 \<or> Suc n \<le> j) \<longrightarrow> ?r' ! j = cs ! j) \<and>
       ((0 < j \<and> j < Suc n) \<longrightarrow>
          ?r' ! j =
            (cs ! j)\<lparr>pk_text :=
                strip (py_join '' '' (last_n k (split_sentences (pk_text (?r' ! (j - 1))))) @
                       '' '' @ pk_text (cs ! j)),
              n_tokens :=
                tok (strip (py_join '' '' (last_n k (split_sentences (pk_text (?r' ! (j - 1))))) @
                       '' '' @ pk_text (cs ! j)))\<rparr>)"
      if j: "j < length cs" for j
    proof (intro conjI impI)
      assume "j = 0 \<or> Suc n \<le> j"
      then have "j \<noteq> n" "j = 0 \<or> n \<le> j" using False by auto
      with other[of j] keep[OF j] show "?r' ! j = cs ! j" by simp
    next
      assume a: "0 < j \<and> j < Suc n"
      show "?r' ! j =
            (cs ! j)\<lparr>pk_text :=
                strip (py_join '' '' (last_n k (split_sentences (pk_text (?r' ! (j - 1))))) @
                       '' '' @ pk_text (cs ! j)),
              n_tokens :=
                tok (strip (py_join '' '' (last_n k (split_sentences (pk_text (?r' ! (j - 1))))) @
                       '' '' @ pk_text (cs ! j)))\<rparr>"
      proof (cases "j = n")
        case True
        have "?r' ! (n - 1) = ?r ! (n - 1)" using other[of "n - 1"] False by simp
        with at_n True show ?thesis by simp
      next
        case jn: False
        with a have jlt: "0 < j \<and> j < n" by simp
        then have "j - 1 \<noteq> n" by arith
        with other[of "j - 1"] other[of j] jn IH j jlt show ?thesis by simp
      qed
    qed
    with len' show ?thesis by blast
  qed
qed

text \<open>
  C4, as amended. For a chunk list with more than one chunk and \<open>overlap_sentences > 0\<close>
  the overlap step keeps the number of chunks and never modifies the first chunk. The
  overlap prepended to chunk 1 is taken from the unmodified text of chunk 0. For every
  chunk j > 0 the overlap is the last \<open>overlap_sentences\<close> sentences of the text of
  chunk j - 1 as the loop has left it: for j > 1 that text already carries the overlap
  injected into chunk j - 1.
\<close>

theorem overlap_reads_current_predecessor:
  assumes "overlap_sentences > 0" and "length cs > 1"
  shows "length (add_overlap tok overlap_sentences cs) = length cs \<and>
    add_overlap tok overlap_sentences cs ! 0 = cs ! 0 \<and>
    pk_text (add_overlap tok overlap_sentences cs ! 1) =
      strip (py_join '' ''
               (last_n (nat overlap_sentences) (split_sentences (pk_text (cs ! 0)))) @
             '' '' @ pk_text (cs ! 1)) \<and>
    (\<forall>j. 0 < j \<and> j < length cs \<longrightarrow>
       add_overlap tok overlap_sentences cs ! j =
         (cs ! j)\<lparr>pk_text :=
             strip (py_join '' ''
                      (last_n (nat overlap_sentences)
                         (split_sentences
                            (pk_text (add_overlap tok overlap_sentences cs ! (j - 1))))) @
                    '' '' @ pk_text (cs ! j)),
           n_tokens :=
             tok (strip (py_join '' ''
                      (last_n (nat overlap_sentences)
                         (split_sentences
                            (pk_text (add_overlap tok overlap_sentences cs ! (j - 1))))) @
                    '' '' @ pk_text (cs ! j)))\<rparr>)"
proof -
  let ?k = "nat overlap_sentences"
  let ?r = "fold (overlap_step tok ?k) [1..<length cs] cs"
  have r: "add_overlap tok overlap_sentences cs = ?r"
    using assms by (simp add: add_overlap_def)
  note f = overlap_fold[of "length cs" cs tok ?k, OF order_refl]
  from f have len: "length ?r = length cs" by blast
  have "0 < length cs" using assms(2) by (cases cs) simp_all
  with f[THEN conjunct2, THEN spec, of 0] have z: "?r ! 0 = cs ! 0" by simp
  have step: "?r ! j =
         (cs ! j)\<lparr>pk_text :=
             strip (py_join '' '' (last_n ?k (split_sentences (pk_text (?r ! (j - 1))))) @
                    '' '' @ pk_text (cs ! j)),
           n_tokens :=
             tok (strip (py_join '' '' (last_n ?k (split_sentences (pk_text (?r ! (j - 1))))) @
                    '' '' @ pk_text (cs ! j)))\<rparr>"
    if "0 < j \<and> j < length cs" for j
    using f[THEN conjunct2, THEN spec, of j] that by simp
  have one: "pk_text (?r ! 1) =
      strip (py_join '' '' (last_n ?k (split_sentences (pk_text (cs ! 0)))) @
             '' '' @ pk_text (cs ! 1))"
    using step[of 1] assms(2) z by simp
  from len z one step show ?thesis unfolding r by blast
qed

text \<open>The definitions unfolded to evaluate the overlap step on concrete chunks.\<close>

lemmas overlap_eval_defs = add_overlap_def overlap_step_def split_sentences_def
  sentence_blocks.simps fence_match_def py_find_def sent_re_split.simps sent_lookbehind_def
  sent_lookahead_def last_n_def strip_def is_space_def whitespace_chars_def Let_def
  heuristic_count_def

text \<open>
  C4 as stated fails: for the chunks \<open>Hello.\<close>, \<open>world\<close>, \<open>End.\<close> and one
  sentence of overlap, chunk 1 becomes \<open>Hello. world\<close>, which is one sentence, so
  chunk 2 receives \<open>Hello. world\<close> and not the \<open>world\<close> that the text of chunk
  1 before overlap would give.
\<close>

theorem overlap_cascade_counterexample:
  "map pk_text
     (add_overlap heuristic_count 1
        [\<lparr>pk_id = 0, pk_text = ''Hello.'', n_tokens = 1, meta_structure = None\<rparr>,
         \<lparr>pk_id = 1, pk_text = ''world'', n_tokens = 1, meta_structure = None\<rparr>,
         \<lparr>pk_id = 2, pk_text = ''End.'', n_tokens = 1, meta_structure = None\<rparr>]) =
     [''Hello.'', ''Hello. world'', ''Hello. world End.''] \<and>
   strip (py_join '' '' (last_n 1 (split_sentences ''world'')) @ '' '' @ ''End.'') =
     ''world End.''"
  by (simp add: overlap_eval_defs)

text \<open>Two chunks and one sentence of overlap.\<close>

theorem overlap_reads_current_predecessor_witness:
  "add_overlap heuristic_count 1
        [\<lparr>pk_id = 0, pk_text = ''First one. Second one.'', n_tokens = 5, meta_structure = None\<rparr>,
         \<lparr>pk_id = 1, pk_text = ''Third.'', n_tokens = 1, meta_structure = None\<rparr>] =
        [\<lparr>pk_id = 0, pk_text = ''First one. Second one.'', n_tokens = 5, meta_structure = None\<rparr>,
         \<lparr>pk_id = 1, pk_text = ''Second one. Third.'', n_tokens = 4, meta_structure = None\<rparr>]"
  (is "add_overlap _ _ ?cs = _")
proof -
  have h: "(1::int) > 0" "length ?cs > 1" by simp_all
  have s: "split_sentences ''First one. Second one.'' = [''First one.'', ''Second one.'']"
    by (simp add: overlap_eval_defs)
  note t = overlap_reads_current_predecessor[OF h, of heuristic_count]
  from t have len: "length (add_overlap heuristic_count 1 ?cs) = 2" by simp
  from t have z: "add_overlap heuristic_count 1 ?cs ! 0 = ?cs ! 0" by blast
  from t have "add_overlap heuristic_count 1 ?cs ! 1 =
         (?cs ! 1)\<lparr>pk_text :=
             strip (py_join '' ''
                      (last_n (nat 1)
                         (split_sentences
                            (pk_text (add_overlap heuristic_count 1 ?cs ! (1 - 1))))) @
                    '' '' @ pk_text (?cs ! 1)),
           n_tokens :=
             heuristic_count (strip (py_join '' ''
                      (last_n (nat 1)
                         (split_sentences
                            (pk_text (add_overlap heuristic_count 1 ?cs ! (1 - 1))))) @
                    '' '' @ pk_text (?cs ! 1)))\<rparr>"
    by simp
  then have o: "add_overlap heuristic_count 1 ?cs ! 1 =
      \<lparr>pk_id = 1, pk_text = ''Second one. Third.'', n_tokens = 4, meta_structure = None\<rparr>"
    using z by (simp add: s last_n_def strip_def is_space_def whitespace_chars_def
        heuristic_count_def)
  from len obtain a b where ab: "add_overlap heuristic_count 1 ?cs = [a, b]"
    by (auto simp: length_Suc_conv numeral_2_eq_2)
  with z o show ?thesis by simp
qed

section \<open>The packer on a piece over the budget\<close>

text \<open>
  The running total of the accumulator is an invariant of the loop: it holds in the
  initial state and every iteration keeps it.
\<close>

lemma pack_step_keeps_running_total:
  assumes "buf_tokens st = sum_list (map tok (buf st))"
  shows "buf_tokens (pack_step tok mx mn st) = sum_list (map tok (buf (pack_step tok mx mn st)))"
  using assms by (simp add: pack_step_def flush_def Let_def)

text \<open>
  A piece over the budget that the hard cut returns unchanged is inserted again right
  after itself in every iteration, so the loop never ends: the packer, and with it
  \<open>adaptive_chunk\<close>, returns nothing. A single word over the budget is such a piece.
\<close>

lemma pack_loop_diverges:
  assumes "int (tok p) > mx" and "hard_cut tok mx p = [p]"
    and "idx st < length (parts st)" and "parts st ! idx st = p"
  shows "pack_loop tok mx mn st = None"
proof -
  have "\<not> (tok' = tok \<and> mx' = mx \<and> idx st' < length (parts st') \<and> parts st' ! idx st' = p)"
    if "pack_loop tok' mx' mn' st' = Some y" for tok' mx' mn' st' y
  proof (rule pack_loop.raw_induct[where P = "\<lambda>tok' mx' mn' st' y.
        \<not> (tok' = tok \<and> mx' = mx \<and> idx st' < length (parts st') \<and> parts st' ! idx st' = p)",
        OF _ that])
    fix pl :: "(string \<Rightarrow> nat) \<Rightarrow> int \<Rightarrow> int \<Rightarrow> pack_state \<Rightarrow> pack_state option"
    fix tok' mx' mn' st' y
    assume IH: "\<And>tok' mx' mn' st' y. pl tok' mx' mn' st' = Some y \<Longrightarrow>
        \<not> (tok' = tok \<and> mx' = mx \<and> idx st' < length (parts st') \<and> parts st' ! idx st' = p)"
      and eq: "(if idx st' < length (parts st') then pl tok' mx' mn' (pack_step tok' mx' mn' st')
                else Some st') = Some y"
    show "\<not> (tok' = tok \<and> mx' = mx \<and> idx st' < length (parts st') \<and> parts st' ! idx st' = p)"
    proof
      assume a: "tok' = tok \<and> mx' = mx \<and> idx st' < length (parts st') \<and> parts st' ! idx st' = p"
      let ?st1 = "st'\<lparr>parts := list_insert (parts st') (idx st' + 1) p, idx := idx st' + 1\<rparr>"
      have s: "pack_step tok mx mn' st' = ?st1"
        using a assms(1,2) by (simp add: pack_step_def Let_def)
      have "idx ?st1 < length (parts ?st1)"
        using a by (auto simp: list_insert_def)
      moreover have "parts ?st1 ! idx ?st1 = p"
        using a by (simp add: list_insert_def nth_append)
      moreover from eq a s have "pl tok mx mn' ?st1 = Some y" by simp
      ultimately show False using IH[of tok mx mn' ?st1 y] by simp
    qed
  qed
  then have "pack_loop tok mx mn st \<noteq> Some y" for y
    using assms(3,4) by blast
  then show ?thesis by (cases "pack_loop tok mx mn st") auto
qed

lemma hard_cut_single_word:
  assumes "wordlike w"
  shows "hard_cut tok mx w = [w]"
proof -
  obtain gs where h: "hard_cut tok mx w = map (\<lambda>g. strip (py_join '' '' g)) gs"
    and c: "concat gs = py_split w"
    and g: "\<forall>g\<in>set gs. g \<noteq> [] \<and>
            (length g = 1 \<or> int (sum_list (map (\<lambda>w. tok (w @ '' '')) g)) \<le> mx)"
    using hard_cut_groups by blast
  from c g have "gs = [[w]]"
    using py_split_single[OF assms] by (intro concat_single) auto
  with h show ?thesis
    by (simp add: strip_wordlike[OF assms])
qed

lemma pack_single_word_over_budget_diverges:
  assumes "wordlike w" and "int (tok w) > mx"
  shows "pack tok mx mn (w # rest) = None"
proof -
  have "pack_loop tok mx mn
          \<lparr>parts = w # rest, idx = 0, buf = [], buf_tokens = 0, chunks = []\<rparr> = None"
    by (rule pack_loop_diverges[where p = w])
      (use assms hard_cut_single_word[OF assms(1)] in simp_all)
  then show ?thesis by (simp add: pack_def)
qed

lemma pack_irreducible_piece_diverges:
  "pack heuristic_count 2 1 [''abcdef abcdef''] = None"
proof -
  have "pack_loop heuristic_count 2 1
          \<lparr>parts = [''abcdef abcdef''], idx = 0, buf = [], buf_tokens = 0, chunks = []\<rparr> = None"
    by (rule pack_loop_diverges[where p = "''abcdef abcdef''"])
      (simp_all add: heuristic_count_def hard_cut_def py_split_def strip_def is_space_def
        whitespace_chars_def)
  then show ?thesis by (simp add: pack_def)
qed

text \<open>
  A piece over the budget that the hard cut does split has its sub-pieces inserted one
  by one at the same index, so they are packed in reverse order.
\<close>

lemma pack_oversized_piece_reversed:
  "pack heuristic_count 2 1 [''aaaa bbbb cccc''] =
     Some [\<lparr>pk_id = 0, pk_text = ''cccc'', n_tokens = 1, meta_structure = None\<rparr>,
           \<lparr>pk_id = 1, pk_text = ''aaaa bbbb'', n_tokens = 2, meta_structure = None\<rparr>]"
  by (simp add: pack_eval_defs)

lemma adaptive_chunk_diverges:
  "adaptive_chunk heuristic_count ''abcdef abcdef'' 2 1 1 ''plain'' = None"
proof -
  have s: "split_sentences ''abcdef abcdef'' = [''abcdef abcdef'']"
    by (simp add: overlap_eval_defs)
  have p: "split_by_paragraph ''abcdef abcdef'' = [''abcdef abcdef'']"
    by (simp add: split_by_paragraph_def para_split.simps strip_def is_space_def
        whitespace_chars_def)
  have "split_with_rules heuristic_count 2 ''abcdef abcdef''
          [split_by_paragraph, split_by_sentence] = [''abcdef abcdef'']"
    using p s
    by (simp add: split_by_sentence_def too_big_def heuristic_count_def hard_cut_def py_split_def
        strip_def is_space_def whitespace_chars_def)
  then show ?thesis
    using pack_irreducible_piece_diverges by (simp add: adaptive_chunk_def splitters_for_def)
qed

end
